theory Spec2Isabelle
  imports Complex_Main
begin

section \<open>Results of Python computations\<close>

text \<open>
  Every exception the modelled code can raise is a value.  \<open>RecursionError\<close> is what
  Python reports for a recursion that never reaches a base case.  \<open>OutOfFuel\<close> is not
  a Python exception: the two \<open>while True\<close> loops of \<open>delaunay\<close> and its two inner
  \<open>while\<close> loops are modelled with a step budget, and \<open>OutOfFuel\<close> says that the
  budget was used up before the loop left.  \<open>FloatSpecial\<close> marks arithmetic on the
  \<open>(inf, inf)\<close> sentinel, whose IEEE results (\<open>inf\<close>, \<open>nan\<close>) are outside the model.
\<close>

datatype error =
    TypeError | AttributeError | KeyError | ZeroDivisionError | ValueError
  | RecursionError | OutOfFuel | FloatSpecial

type_synonym 'a res = "error + 'a"

definition andthen :: "'a res \<Rightarrow> ('a \<Rightarrow> 'b res) \<Rightarrow> 'b res" where
  "andthen m f = (case m of Inl err \<Rightarrow> Inl err | Inr x \<Rightarrow> f x)"

section \<open>Geometric predicates (guibas_and_stolfi.py)\<close>

text \<open>
  Coordinates are exact reals: \<open>np.linalg.det\<close> is modelled as the exact determinant,
  so floating-point round-off of the LU factorisation is outside the model.
\<close>

type_synonym point = "real \<times> real"

definition det2 :: "real \<Rightarrow> real \<Rightarrow> real \<Rightarrow> real \<Rightarrow> real" where
  "det2 a b c d = a * d - b * c"

text \<open>Determinant of a 3x3 matrix given by its rows (expansion along the first row).\<close>

definition det3 :: "real \<times> real \<times> real \<Rightarrow> real \<times> real \<times> real \<Rightarrow> real \<times> real \<times> real \<Rightarrow> real" where
  "det3 r1 r2 r3 =
     (case r1 of (a1, a2, a3) \<Rightarrow> case r2 of (b1, b2, b3) \<Rightarrow> case r3 of (c1, c2, c3) \<Rightarrow>
        a1 * det2 b2 b3 c2 c3 - a2 * det2 b1 b3 c1 c3 + a3 * det2 b1 b2 c1 c2)"

text \<open>Determinant of a 4x4 matrix given by its rows (expansion along the last column).\<close>

definition det4 ::
  "real \<times> real \<times> real \<times> real \<Rightarrow> real \<times> real \<times> real \<times> real \<Rightarrow>
   real \<times> real \<times> real \<times> real \<Rightarrow> real \<times> real \<times> real \<times> real \<Rightarrow> real" where
  "det4 r1 r2 r3 r4 =
     (case r1 of (a1, a2, a3, a4) \<Rightarrow> case r2 of (b1, b2, b3, b4) \<Rightarrow>
      case r3 of (c1, c2, c3, c4) \<Rightarrow> case r4 of (d1, d2, d3, d4) \<Rightarrow>
        - a4 * det3 (b1, b2, b3) (c1, c2, c3) (d1, d2, d3)
        + b4 * det3 (a1, a2, a3) (c1, c2, c3) (d1, d2, d3)
        - c4 * det3 (a1, a2, a3) (b1, b2, b3) (d1, d2, d3)
        + d4 * det3 (a1, a2, a3) (b1, b2, b3) (c1, c2, c3))"

text \<open>The row \<open>[p[0], p[1], pow(p[0], 2) + pow(p[1], 2), 1]\<close> of \<open>in_circle\<close>.\<close>

definition lifted_row :: "point \<Rightarrow> real \<times> real \<times> real \<times> real" where
  "lifted_row p = (fst p, snd p, (fst p)\<^sup>2 + (snd p)\<^sup>2, 1)"

definition in_circle :: "point \<Rightarrow> point \<Rightarrow> point \<Rightarrow> point \<Rightarrow> bool" where
  "in_circle a b c d =
     (if card (set [a, b, c, d]) = 4
      then det4 (lifted_row a) (lifted_row b) (lifted_row c) (lifted_row d) > 0
      else False)"

definition ccw :: "point \<Rightarrow> point \<Rightarrow> point \<Rightarrow> bool" where
  "ccw a b c = (det3 (fst a, snd a, 1) (fst b, snd b, 1) (fst c, snd c, 1) > 0)"

section \<open>The quad-edge store (classes Quad and Edge)\<close>

text \<open>
  A \<open>Quad\<close> object is named by a number, in allocation order.  \<open>Quad.make\<close> assigns
  \<open>quad.edges = [edge, rot, sym, rotsym]\<close> once, where the four \<open>Edge\<close> objects were built
  with \<open>_rot\<close> 0, 1, 2, 3, and nothing assigns \<open>edges\<close> again: the \<open>Edge\<close> object at
  index \<open>n\<close> of the list of Quad \<open>q\<close> is named \<open>(q, n)\<close>.  An \<open>Edge\<close> object holds
  \<open>_rot\<close>, \<open>_quad\<close> (\<open>None\<close> after \<open>delete\<close>), \<open>next\<close> and the dictionary \<open>data\<close> with
  the key \<open>"origin"\<close> and, once \<open>calculate_dual\<close> has stored it, the key \<open>"vertices"\<close>.
  A payload is a pair of numbers (a site or a Voronoi vertex) or the sentinel
  \<open>(inf, inf)\<close>.
\<close>

type_synonym quad_id = nat
type_synonym eref = "quad_id \<times> nat"

datatype payload = Pt point | Infinity

record edge =
  rot_idx :: nat
  quad_ref :: "quad_id option"
  next_ref :: "eref option"
  origin :: "payload option"
  vertices :: "payload list option"

record heap =
  store :: "eref \<Rightarrow> edge"
  fresh :: quad_id

definition blank_edge :: edge where
  "blank_edge = \<lparr>rot_idx = 0, quad_ref = None, next_ref = None, origin = None, vertices = None\<rparr>"

definition empty_heap :: heap where
  "empty_heap = \<lparr>store = (\<lambda>_. blank_edge), fresh = 0\<rparr>"

definition quad_edges :: "quad_id \<Rightarrow> eref list" where
  "quad_edges q = [(q, 0), (q, 1), (q, 2), (q, 3)]"

text \<open>\<open>Quad.__getitem__\<close>: the index is always \<open>(_rot + n) % 4\<close>, within the list.\<close>

definition quad_getitem :: "quad_id \<Rightarrow> nat \<Rightarrow> eref" where
  "quad_getitem q n = (q, n)"

definition set_next :: "heap \<Rightarrow> eref \<Rightarrow> eref option \<Rightarrow> heap" where
  "set_next h e v = h\<lparr>store := (store h)(e := (store h e)\<lparr>next_ref := v\<rparr>)\<rparr>"

definition set_quad :: "heap \<Rightarrow> eref \<Rightarrow> quad_id option \<Rightarrow> heap" where
  "set_quad h e v = h\<lparr>store := (store h)(e := (store h e)\<lparr>quad_ref := v\<rparr>)\<rparr>"

definition set_org :: "heap \<Rightarrow> eref \<Rightarrow> payload option \<Rightarrow> heap" where
  "set_org h e v = h\<lparr>store := (store h)(e := (store h e)\<lparr>origin := v\<rparr>)\<rparr>"

definition set_vertices :: "heap \<Rightarrow> eref \<Rightarrow> payload list option \<Rightarrow> heap" where
  "set_vertices h e v = h\<lparr>store := (store h)(e := (store h e)\<lparr>vertices := v\<rparr>)\<rparr>"

text \<open>
  \<open>Quad.make\<close>: the primal edge and its symmetric edge are their own \<open>next\<close>; the two
  dual edges are each other's.  \<open>Edge.__init__\<close> sets \<open>data = {"origin": None}\<close>.
\<close>

definition new_edge :: "quad_id \<Rightarrow> nat \<Rightarrow> nat \<Rightarrow> edge" where
  "new_edge q r n =
     \<lparr>rot_idx = r, quad_ref = Some q, next_ref = Some (q, n), origin = None, vertices = None\<rparr>"

definition make :: "heap \<Rightarrow> heap \<times> eref" where
  "make h =
     (let q = fresh h in
      (\<lparr>store = (store h)((q, 0) := new_edge q 0 0, (q, 2) := new_edge q 2 2,
                           (q, 1) := new_edge q 1 3, (q, 3) := new_edge q 3 1),
        fresh = Suc q\<rparr>,
       (q, 0)))"

text \<open>
  A Python expression of type "Edge or None" is an \<open>eref option\<close>; an attribute access
  or a method call on \<open>None\<close> raises \<open>AttributeError\<close>.
\<close>

definition deref :: "eref option \<Rightarrow> eref res" where
  "deref v = (case v of None \<Rightarrow> Inl AttributeError | Some e \<Rightarrow> Inr e)"

text \<open>\<open>Edge.rot\<close>: \<open>self._quad[n]\<close> raises \<open>TypeError\<close> when \<open>_quad\<close> is \<open>None\<close>.\<close>

definition rot :: "heap \<Rightarrow> eref \<Rightarrow> int \<Rightarrow> eref res" where
  "rot h e n =
     (case quad_ref (store h e) of
        None \<Rightarrow> Inl TypeError
      | Some q \<Rightarrow> Inr (quad_getitem q (nat ((int (rot_idx (store h e)) + n) mod 4))))"

definition org :: "heap \<Rightarrow> eref \<Rightarrow> payload option" where
  "org h e = origin (store h e)"

definition sym_edge :: "heap \<Rightarrow> eref \<Rightarrow> eref res" where
  "sym_edge h e = rot h e 2"

definition dest :: "heap \<Rightarrow> eref \<Rightarrow> payload option res" where
  "dest h e = andthen (sym_edge h e) (\<lambda>s. Inr (org h s))"

definition set_dest :: "heap \<Rightarrow> eref \<Rightarrow> payload option \<Rightarrow> heap res" where
  "set_dest h e d = andthen (sym_edge h e) (\<lambda>s. Inr (set_org h s d))"

definition left :: "heap \<Rightarrow> eref \<Rightarrow> eref res" where
  "left h e = rot h e (- 1)"

definition right :: "heap \<Rightarrow> eref \<Rightarrow> eref res" where
  "right h e = rot h e 1"

definition onext :: "heap \<Rightarrow> eref \<Rightarrow> eref option" where
  "onext h e = next_ref (store h e)"

definition lnext :: "heap \<Rightarrow> eref \<Rightarrow> eref res" where
  "lnext h e = andthen (rot h e (- 1)) (\<lambda>x. andthen (deref (onext h x)) (\<lambda>y. rot h y 1))"

definition rnext :: "heap \<Rightarrow> eref \<Rightarrow> eref res" where
  "rnext h e = andthen (rot h e 1) (\<lambda>x. andthen (deref (onext h x)) (\<lambda>y. rot h y (- 1)))"

definition dnext :: "heap \<Rightarrow> eref \<Rightarrow> eref res" where
  "dnext h e = andthen (sym_edge h e) (\<lambda>x. andthen (deref (onext h x)) (\<lambda>y. sym_edge h y))"

definition rprev :: "heap \<Rightarrow> eref \<Rightarrow> eref option res" where
  "rprev h e = andthen (sym_edge h e) (\<lambda>x. Inr (onext h x))"

definition oprev :: "heap \<Rightarrow> eref \<Rightarrow> eref res" where
  "oprev h e = andthen (rot h e 1) (\<lambda>x. andthen (deref (onext h x)) (\<lambda>y. rot h y 1))"

definition lprev :: "heap \<Rightarrow> eref \<Rightarrow> eref res" where
  "lprev h e = andthen (deref (onext h e)) (\<lambda>y. sym_edge h y)"

definition dprev :: "heap \<Rightarrow> eref \<Rightarrow> eref res" where
  "dprev h e = andthen (rot h e (- 1)) (\<lambda>x. andthen (deref (onext h x)) (\<lambda>y. rot h y (- 1)))"

text \<open>
  \<open>Edge.__hash__\<close> is \<open>hash(self._quad)\<close>.  \<open>Quad\<close> defines no \<open>__hash__\<close>, so the hash
  of a Quad is the one of its identity, different for different Quad objects; the
  model takes the content of \<open>_quad\<close> itself as the hash value.
\<close>

definition hash_edge :: "heap \<Rightarrow> eref \<Rightarrow> quad_id option" where
  "hash_edge h e = quad_ref (store h e)"

text \<open>
  \<open>Edge.__eq__\<close>, with the short-circuit evaluation of \<open>and\<close> and \<open>or\<close>: the second
  disjunct is evaluated only when the first is false.
\<close>

definition eq_edge :: "heap \<Rightarrow> eref \<Rightarrow> eref \<Rightarrow> bool res" where
  "eq_edge h e other =
     (let second =
        andthen (dest h other) (\<lambda>od.
          if org h e = od
          then andthen (dest h e) (\<lambda>d. Inr (d = org h other))
          else Inr False)
      in if org h e = org h other
         then andthen (dest h e) (\<lambda>d. andthen (dest h other) (\<lambda>od.
                if d = od then Inr True else second))
         else second)"

text \<open>
  \<open>Edge.delete\<close>: the three other edges of the Quad's list, then the edge itself, lose
  \<open>next\<close> and \<open>_quad\<close>.  \<open>self._quad.edges\<close> raises \<open>AttributeError\<close> when \<open>_quad\<close> is
  already \<open>None\<close>.
\<close>

definition clear_edge :: "eref \<Rightarrow> heap \<Rightarrow> heap" where
  "clear_edge x h = set_quad (set_next h x None) x None"

definition edge_delete :: "heap \<Rightarrow> eref \<Rightarrow> heap res" where
  "edge_delete h e =
     (case quad_ref (store h e) of
        None \<Rightarrow> Inl AttributeError
      | Some q \<Rightarrow>
          (let r = rot_idx (store h e);
               other_edges = take r (quad_edges q) @ drop (r + 1) (quad_edges q)
           in Inr (clear_edge e (fold clear_edge other_edges h))))"

section \<open>The topological operators\<close>

text \<open>
  \<open>splice\<close>.  A tuple assignment evaluates its right-hand side first and then assigns
  from left to right.
\<close>

definition splice_edges :: "heap \<Rightarrow> eref \<Rightarrow> eref \<Rightarrow> heap res" where
  "splice_edges h a b =
     andthen (deref (onext h a)) (\<lambda>an. andthen (rot h an 1) (\<lambda>alpha.
     andthen (deref (onext h b)) (\<lambda>bn. andthen (rot h bn 1) (\<lambda>beta.
       let h1 = set_next (set_next h alpha (onext h beta)) beta (onext h alpha);
           h2 = set_next (set_next h1 a (onext h1 b)) b (onext h1 a)
       in Inr h2))))"

definition connect :: "heap \<Rightarrow> eref \<Rightarrow> eref \<Rightarrow> (heap \<times> eref) res" where
  "connect h a b =
     (case make h of (h1, e) \<Rightarrow>
        andthen (dest h1 a) (\<lambda>d.
        andthen (set_dest (set_org h1 e d) e (org h1 b)) (\<lambda>h2.
        andthen (lnext h2 a) (\<lambda>al.
        andthen (splice_edges h2 e al) (\<lambda>h3.
        andthen (sym_edge h3 e) (\<lambda>es.
        andthen (splice_edges h3 es b) (\<lambda>h4. Inr (h4, e))))))))"

definition delete_edge :: "heap \<Rightarrow> eref \<Rightarrow> heap res" where
  "delete_edge h e =
     andthen (oprev h e) (\<lambda>ep.
     andthen (splice_edges h e ep) (\<lambda>h1.
     andthen (sym_edge h1 e) (\<lambda>es.
     andthen (oprev h1 es) (\<lambda>esp.
     andthen (splice_edges h1 es esp) (\<lambda>h2. edge_delete h2 e)))))"

section \<open>The Delaunay builder\<close>

text \<open>
  The geometric predicates read the coordinates of payloads: subscripting \<open>None\<close>
  raises \<open>TypeError\<close>.
\<close>

definition coords :: "payload option \<Rightarrow> point res" where
  "coords v =
     (case v of None \<Rightarrow> Inl TypeError | Some Infinity \<Rightarrow> Inl FloatSpecial | Some (Pt p) \<Rightarrow> Inr p)"

definition ccw_payload :: "payload option \<Rightarrow> payload option \<Rightarrow> payload option \<Rightarrow> bool res" where
  "ccw_payload a b c =
     andthen (coords a) (\<lambda>pa. andthen (coords b) (\<lambda>pb. andthen (coords c) (\<lambda>pc.
       Inr (ccw pa pb pc))))"

definition in_circle_payload ::
  "payload option \<Rightarrow> payload option \<Rightarrow> payload option \<Rightarrow> payload option \<Rightarrow> bool res" where
  "in_circle_payload a b c d =
     (if card (set [a, b, c, d]) = 4
      then andthen (coords a) (\<lambda>pa. andthen (coords b) (\<lambda>pb. andthen (coords c) (\<lambda>pc.
           andthen (coords d) (\<lambda>pd. Inr (in_circle pa pb pc pd)))))
      else Inr False)"

definition right_of :: "heap \<Rightarrow> payload option \<Rightarrow> eref \<Rightarrow> bool res" where
  "right_of h x e = andthen (dest h e) (\<lambda>d. ccw_payload x d (org h e))"

definition left_of :: "heap \<Rightarrow> payload option \<Rightarrow> eref \<Rightarrow> bool res" where
  "left_of h x e = andthen (dest h e) (\<lambda>d. ccw_payload x (org h e) d)"

text \<open>
  \<open>delaunay\<close> is modelled for \<open>op_queue = None\<close>, the way \<open>voronoi.py\<close> calls it.
  The case \<open>len(S) == 2\<close>.
\<close>

definition delaunay2 :: "point \<Rightarrow> point \<Rightarrow> heap \<Rightarrow> (heap \<times> eref \<times> eref) res" where
  "delaunay2 s1 s2 h =
     (case make h of (h1, a) \<Rightarrow>
        andthen (set_dest (set_org h1 a (Some (Pt s1))) a (Some (Pt s2))) (\<lambda>h2.
        andthen (sym_edge h2 a) (\<lambda>as. Inr (h2, a, as))))"

text \<open>The case \<open>len(S) == 3\<close>.  \<open>a.dest = b.org = s2\<close> assigns \<open>a.dest\<close> first.\<close>

definition delaunay3 :: "point \<Rightarrow> point \<Rightarrow> point \<Rightarrow> heap \<Rightarrow> (heap \<times> eref \<times> eref) res" where
  "delaunay3 s1 s2 s3 h =
     (case make h of (h1, a) \<Rightarrow> case make h1 of (h2, b) \<Rightarrow>
        andthen (sym_edge h2 a) (\<lambda>as.
        andthen (splice_edges h2 as b) (\<lambda>h3.
        andthen (set_dest (set_org h3 a (Some (Pt s1))) a (Some (Pt s2))) (\<lambda>h4.
        andthen (set_dest (set_org h4 b (Some (Pt s2))) b (Some (Pt s3))) (\<lambda>h5.
          if ccw s1 s2 s3 then
            andthen (connect h5 b a) (\<lambda>(h6, c).
            andthen (sym_edge h6 b) (\<lambda>bs. Inr (h6, a, bs)))
          else if ccw s1 s3 s2 then
            andthen (connect h5 b a) (\<lambda>(h6, c).
            andthen (sym_edge h6 c) (\<lambda>cs. Inr (h6, cs, c)))
          else
            andthen (sym_edge h5 b) (\<lambda>bs. Inr (h5, a, bs)))))))"

text \<open>The loop that computes the lower common tangent of \<open>L\<close> and \<open>R\<close>.\<close>

fun lower_tangent :: "nat \<Rightarrow> heap \<Rightarrow> eref \<Rightarrow> eref \<Rightarrow> (eref \<times> eref) res" where
  "lower_tangent 0 h ldi rdi = Inl OutOfFuel"
| "lower_tangent (Suc n) h ldi rdi =
     andthen (left_of h (org h rdi) ldi) (\<lambda>l.
       if l then andthen (lnext h ldi) (\<lambda>ldi'. lower_tangent n h ldi' rdi)
       else andthen (right_of h (org h ldi) rdi) (\<lambda>r.
         if r then andthen (rprev h rdi) (\<lambda>v. andthen (deref v) (\<lambda>rdi'.
                     lower_tangent n h ldi rdi'))
         else Inr (ldi, rdi)))"

text \<open>
  The two inner loops of the merge loop.  \<open>t\<close> is read before \<open>delete_edge\<close>; the loop
  condition has just read the same \<open>l_cand.onext\<close> (\<open>r_cand.oprev\<close>).
\<close>

fun lcand_loop :: "nat \<Rightarrow> heap \<Rightarrow> eref \<Rightarrow> eref \<Rightarrow> (heap \<times> eref) res" where
  "lcand_loop 0 h base_l l_cand = Inl OutOfFuel"
| "lcand_loop (Suc n) h base_l l_cand =
     andthen (dest h base_l) (\<lambda>bd.
     andthen (dest h l_cand) (\<lambda>ld.
     andthen (deref (onext h l_cand)) (\<lambda>t.
     andthen (dest h t) (\<lambda>td.
     andthen (in_circle_payload bd (org h base_l) ld td) (\<lambda>c.
       if c then andthen (delete_edge h l_cand) (\<lambda>h'. lcand_loop n h' base_l t)
       else Inr (h, l_cand))))))"

fun rcand_loop :: "nat \<Rightarrow> heap \<Rightarrow> eref \<Rightarrow> eref \<Rightarrow> (heap \<times> eref) res" where
  "rcand_loop 0 h base_l r_cand = Inl OutOfFuel"
| "rcand_loop (Suc n) h base_l r_cand =
     andthen (dest h base_l) (\<lambda>bd.
     andthen (dest h r_cand) (\<lambda>rd.
     andthen (oprev h r_cand) (\<lambda>t.
     andthen (dest h t) (\<lambda>td.
     andthen (in_circle_payload bd (org h base_l) rd td) (\<lambda>c.
       if c then andthen (delete_edge h r_cand) (\<lambda>h'. rcand_loop n h' base_l t)
       else Inr (h, r_cand))))))"

text \<open>
  The merge loop.  Its first argument is the budget of each inner loop.  Both validity
  tests \<open>right_of(l_cand.dest, base_l)\<close> and \<open>right_of(r_cand.dest, base_l)\<close> are
  evaluated on every path through the two conditionals that close the loop body, and
  nothing changes between their evaluations, so the model reads each once.
\<close>

fun merge_loop :: "nat \<Rightarrow> nat \<Rightarrow> heap \<Rightarrow> eref \<Rightarrow> heap res" where
  "merge_loop k 0 h base_l = Inl OutOfFuel"
| "merge_loop k (Suc n) h base_l =
     andthen (sym_edge h base_l) (\<lambda>bs.
     andthen (deref (onext h bs)) (\<lambda>l0.
     andthen (dest h l0) (\<lambda>l0d.
     andthen (right_of h l0d base_l) (\<lambda>l0v.
     andthen (if l0v then lcand_loop k h base_l l0 else Inr (h, l0)) (\<lambda>(h1, l_cand).
     andthen (oprev h1 base_l) (\<lambda>r0.
     andthen (dest h1 r0) (\<lambda>r0d.
     andthen (right_of h1 r0d base_l) (\<lambda>r0v.
     andthen (if r0v then rcand_loop k h1 base_l r0 else Inr (h1, r0)) (\<lambda>(h2, r_cand).
     andthen (dest h2 l_cand) (\<lambda>ld.
     andthen (right_of h2 ld base_l) (\<lambda>lv.
     andthen (dest h2 r_cand) (\<lambda>rd.
     andthen (right_of h2 rd base_l) (\<lambda>rv.
       if \<not> lv \<and> \<not> rv then Inr h2
       else
         andthen (if \<not> lv then Inr True
                  else if rv then in_circle_payload ld (org h2 l_cand) (org h2 r_cand) rd
                  else Inr False) (\<lambda>take_r.
         andthen (sym_edge h2 base_l) (\<lambda>bs2.
         andthen (if take_r then connect h2 r_cand bs2
                  else andthen (sym_edge h2 l_cand) (\<lambda>ls. connect h2 bs2 ls)) (\<lambda>(h3, base_l').
           merge_loop k n h3 base_l'))))))))))))))))"

text \<open>The marriage of two half triangulations: everything after the recursive calls.\<close>

definition marry ::
  "nat \<Rightarrow> heap \<Rightarrow> eref \<Rightarrow> eref \<Rightarrow> eref \<Rightarrow> eref \<Rightarrow> (heap \<times> eref \<times> eref) res" where
  "marry fuel h ldo ldi0 rdi0 rdo =
     andthen (lower_tangent fuel h ldi0 rdi0) (\<lambda>(ldi, rdi).
     andthen (sym_edge h rdi) (\<lambda>rs.
     andthen (connect h rs ldi) (\<lambda>(h1, base_l).
     andthen (if org h1 ldi = org h1 ldo then sym_edge h1 base_l else Inr ldo) (\<lambda>ldo'.
     andthen (merge_loop fuel fuel h1 base_l) (\<lambda>h2.
       Inr (h2, ldo', if org h1 rdi = org h1 rdo then base_l else rdo))))))"

text \<open>
  \<open>delaunay\<close>.  A list of fewer than two sites takes the last branch of the source,
  whose left half is empty again: the recursion never ends and Python raises
  \<open>RecursionError\<close>.
\<close>

function (sequential) delaunay :: "nat \<Rightarrow> point list \<Rightarrow> heap \<Rightarrow> (heap \<times> eref \<times> eref) res" where
  "delaunay fuel [s1, s2] h = delaunay2 s1 s2 h"
| "delaunay fuel [s1, s2, s3] h = delaunay3 s1 s2 s3 h"
| "delaunay fuel [] h = Inl RecursionError"
| "delaunay fuel [s] h = Inl RecursionError"
| "delaunay fuel S h =
     (let half = length S div 2; L = take half S; R = drop half S in
        andthen (delaunay fuel L h) (\<lambda>(h1, ldo, ldi).
        andthen (delaunay fuel R h1) (\<lambda>(h2, rdi, rdo).
          marry fuel h2 ldo ldi rdi rdo)))"
  by pat_completeness auto
termination
  by (relation "measure (\<lambda>(fuel, S, h). length S)") auto

section \<open>Well-formed stores\<close>

definition live_edges :: "heap \<Rightarrow> eref list" where
  "live_edges h =
     [(q, i). q \<leftarrow> [0..<fresh h], i \<leftarrow> [0..<4], quad_ref (store h (q, i)) \<noteq> None]"

definition linked :: "heap \<Rightarrow> bool" where
  "linked h \<longleftrightarrow>
     (\<forall>e \<in> set (live_edges h).
        quad_ref (store h e) = Some (fst e) \<and> rot_idx (store h e) = snd e
      \<and> set (quad_edges (fst e)) \<subseteq> set (live_edges h)
      \<and> (\<exists>n \<in> set (live_edges h). onext h e = Some n))"

definition well_formed :: "heap \<Rightarrow> bool" where
  "well_formed h \<longleftrightarrow>
     linked h
   \<and> (\<forall>e \<in> set (live_edges h).
        (\<exists>n. onext h e = Some n \<and> even (snd n) = even (snd e))
      \<and> andthen (deref (onext h e)) (\<lambda>n. andthen (rot h n 1) (\<lambda>x.
           andthen (deref (onext h x)) (\<lambda>m. rot h m 1))) = Inr e)"

definition involutive :: "heap \<Rightarrow> bool" where
  "involutive h \<longleftrightarrow>
     linked h
   \<and> (\<forall>e \<in> set (live_edges h).
        andthen (deref (onext h e)) (\<lambda>n. andthen (rot h n 1) (\<lambda>x.
          andthen (deref (onext h x)) (\<lambda>m. rot h m 1))) = Inr e)"

definition rot1 :: "eref \<Rightarrow> eref" where
  "rot1 e = (fst e, (snd e + 1) mod 4)"

definition rot2 :: "eref \<Rightarrow> eref" where
  "rot2 e = (fst e, (snd e + 2) mod 4)"

definition rot3 :: "eref \<Rightarrow> eref" where
  "rot3 e = (fst e, (snd e + 3) mod 4)"

text \<open>The successor function after \<open>splice(a, b)\<close>, for \<open>alpha\<close> and \<open>beta\<close> as computed.\<close>

definition splice_next ::
  "(eref \<Rightarrow> eref option) \<Rightarrow> eref \<Rightarrow> eref \<Rightarrow> eref \<Rightarrow> eref \<Rightarrow> eref \<Rightarrow> eref option" where
  "splice_next N a b alpha beta =
     (let N1 = N(alpha := N beta, beta := N alpha) in N1(a := N1 b, b := N1 a))"

text \<open>
  The first half of the three-site case: the chain \<open>a\<close>: \<open>s1 -> s2\<close>, \<open>b\<close>: \<open>s2 -> s3\<close>,
  before the orientation tests.
\<close>

definition chain3 :: "heap \<Rightarrow> point \<Rightarrow> point \<Rightarrow> point \<Rightarrow> heap \<Rightarrow> bool" where
  "chain3 h s1 s2 s3 h5 \<longleftrightarrow>
     (let q = fresh h in
      linked h5 \<and> fresh h5 = q + 2
    \<and> (\<forall>x. x \<in> set (live_edges h5) \<longleftrightarrow>
            x \<in> set (live_edges h) \<or> ((fst x = q \<or> fst x = Suc q) \<and> snd x < 4))
    \<and> onext h5 (q, 0) = Some (q, 0) \<and> onext h5 (q, 1) = Some (q, 3)
    \<and> onext h5 (q, 2) = Some (Suc q, 0) \<and> onext h5 (q, 3) = Some (Suc q, 3)
    \<and> onext h5 (Suc q, 0) = Some (q, 2) \<and> onext h5 (Suc q, 1) = Some (q, 1)
    \<and> onext h5 (Suc q, 2) = Some (Suc q, 2) \<and> onext h5 (Suc q, 3) = Some (Suc q, 1)
    \<and> org h5 (q, 0) = Some (Pt s1) \<and> org h5 (q, 2) = Some (Pt s2)
    \<and> org h5 (Suc q, 0) = Some (Pt s2) \<and> org h5 (Suc q, 2) = Some (Pt s3))"

text \<open>The closed triangle: the chain and the connecting edge \<open>c\<close>: \<open>s3 -> s1\<close>.\<close>

definition triangle3 :: "heap \<Rightarrow> point \<Rightarrow> point \<Rightarrow> point \<Rightarrow> heap \<Rightarrow> bool" where
  "triangle3 h s1 s2 s3 h9 \<longleftrightarrow>
     (let q = fresh h in
      linked h9 \<and> fresh h9 = q + 3
    \<and> (\<forall>x. x \<in> set (live_edges h9) \<longleftrightarrow>
            x \<in> set (live_edges h) \<or> ((fst x = q \<or> fst x = Suc q \<or> fst x = q + 2) \<and> snd x < 4))
    \<and> onext h9 (q, 0) = Some (q + 2, 2) \<and> onext h9 (q, 1) = Some (q + 2, 1)
    \<and> onext h9 (q, 2) = Some (Suc q, 0) \<and> onext h9 (q, 3) = Some (Suc q, 3)
    \<and> onext h9 (Suc q, 0) = Some (q, 2) \<and> onext h9 (Suc q, 1) = Some (q, 1)
    \<and> onext h9 (Suc q, 2) = Some (q + 2, 0) \<and> onext h9 (Suc q, 3) = Some (q + 2, 3)
    \<and> onext h9 (q + 2, 0) = Some (Suc q, 2) \<and> onext h9 (q + 2, 1) = Some (Suc q, 1)
    \<and> onext h9 (q + 2, 2) = Some (q, 0) \<and> onext h9 (q + 2, 3) = Some (q, 3)
    \<and> org h9 (q, 0) = Some (Pt s1) \<and> org h9 (q, 2) = Some (Pt s2)
    \<and> org h9 (Suc q, 0) = Some (Pt s2) \<and> org h9 (Suc q, 2) = Some (Pt s3)
    \<and> org h9 (q + 2, 0) = Some (Pt s3) \<and> org h9 (q + 2, 2) = Some (Pt s1))"

text \<open>Orbits: the set of iterates of a successor function from a point.\<close>

definition orb :: "('a \<Rightarrow> 'a) \<Rightarrow> 'a \<Rightarrow> 'a set" where
  "orb f x = {(f ^^ k) x | k. True}"

text \<open>
  The successor of a live edge as a total function (the identity on every other name),
  and the \<open>onext\<close> orbit of an edge.
\<close>

definition next_of :: "heap \<Rightarrow> eref \<Rightarrow> eref" where
  "next_of h e =
     (if e \<in> set (live_edges h) then (case onext h e of Some n \<Rightarrow> n | None \<Rightarrow> e) else e)"

definition orbit :: "heap \<Rightarrow> eref \<Rightarrow> eref set" where
  "orbit h e = orb (next_of h) e"

section \<open>Basic facts about the store\<close>

lemma andthen_Inr [simp]: "andthen (Inr x) f = f x"
  by (simp add: andthen_def)

lemma andthen_Inl [simp]: "andthen (Inl x) f = Inl x"
  by (simp add: andthen_def)

lemma andthen_eq_Inr:
  "andthen m f = Inr y \<longleftrightarrow> (\<exists>x. m = Inr x \<and> f x = Inr y)"
  by (cases m) simp_all

lemma deref_Some [simp]: "deref (Some e) = Inr e"
  by (simp add: deref_def)

lemma deref_None [simp]: "deref None = Inl AttributeError"
  by (simp add: deref_def)

lemma in_live_edges:
  "e \<in> set (live_edges h) \<longleftrightarrow> fst e < fresh h \<and> snd e < 4 \<and> quad_ref (store h e) \<noteq> None"
  by (cases e) (auto simp: live_edges_def)

lemma onext_set_next [simp]: "onext (set_next h e v) x = (if x = e then v else onext h x)"
  by (simp add: onext_def set_next_def)

lemma quad_ref_set_next [simp]: "quad_ref (store (set_next h e v) x) = quad_ref (store h x)"
  by (simp add: set_next_def)

lemma rot_idx_set_next [simp]: "rot_idx (store (set_next h e v) x) = rot_idx (store h x)"
  by (simp add: set_next_def)

lemma origin_set_next [simp]: "origin (store (set_next h e v) x) = origin (store h x)"
  by (simp add: set_next_def)

lemma vertices_set_next [simp]: "vertices (store (set_next h e v) x) = vertices (store h x)"
  by (simp add: set_next_def)

lemma fresh_set_next [simp]: "fresh (set_next h e v) = fresh h"
  by (simp add: set_next_def)

lemma rot_set_next [simp]: "rot (set_next h e v) x n = rot h x n"
  by (simp add: rot_def split: option.split)

lemma org_set_next [simp]: "org (set_next h e v) x = org h x"
  by (simp add: org_def)

lemma live_edges_set_next [simp]: "live_edges (set_next h e v) = live_edges h"
  by (simp add: live_edges_def)

lemma onext_set_org [simp]: "onext (set_org h e v) x = onext h x"
  by (simp add: onext_def set_org_def)

lemma quad_ref_set_org [simp]: "quad_ref (store (set_org h e v) x) = quad_ref (store h x)"
  by (simp add: set_org_def)

lemma rot_idx_set_org [simp]: "rot_idx (store (set_org h e v) x) = rot_idx (store h x)"
  by (simp add: set_org_def)

lemma fresh_set_org [simp]: "fresh (set_org h e v) = fresh h"
  by (simp add: set_org_def)

lemma rot_set_org [simp]: "rot (set_org h e v) x n = rot h x n"
  by (simp add: rot_def split: option.split)

lemma org_set_org [simp]: "org (set_org h e v) x = (if x = e then v else org h x)"
  by (simp add: org_def set_org_def)

lemma live_edges_set_org [simp]: "live_edges (set_org h e v) = live_edges h"
  by (simp add: live_edges_def)

text \<open>In a linked store \<open>rot\<close> is rotation inside the Quad.\<close>

lemma rot_live:
  assumes "linked h" "e \<in> set (live_edges h)"
  shows "rot h e n = Inr (fst e, nat ((int (snd e) + n) mod 4))"
  using assms by (auto simp: linked_def rot_def quad_getitem_def)

lemma quad_live:
  assumes "linked h" "e \<in> set (live_edges h)" "i < 4"
  shows "(fst e, i) \<in> set (live_edges h)"
proof -
  from assms have "set (quad_edges (fst e)) \<subseteq> set (live_edges h)"
    by (auto simp: linked_def)
  moreover from \<open>i < 4\<close> have "i = 0 \<or> i = 1 \<or> i = 2 \<or> i = 3" by arith
  ultimately show ?thesis by (auto simp: quad_edges_def)
qed

lemma rot_live_live:
  assumes "linked h" "e \<in> set (live_edges h)"
  shows "\<exists>x \<in> set (live_edges h). rot h e n = Inr x"
proof -
  have "nat ((int (snd e) + n) mod 4) < 4" by simp
  then show ?thesis using assms rot_live quad_live by blast
qed

lemma onext_live:
  assumes "linked h" "e \<in> set (live_edges h)"
  shows "\<exists>x \<in> set (live_edges h). onext h e = Some x"
  using assms by (auto simp: linked_def)


lemma rot1_live:
  assumes "linked h" "e \<in> set (live_edges h)"
  shows "rot h e 1 = Inr (rot1 e)" "rot1 e \<in> set (live_edges h)"
proof -
  have "nat ((int (snd e) + 1) mod 4) = (snd e + 1) mod 4"
    by (simp add: nat_mod_distrib nat_add_distrib)
  then show "rot h e 1 = Inr (rot1 e)"
    using rot_live [OF assms, of 1] by (simp add: rot1_def)
  show "rot1 e \<in> set (live_edges h)"
    unfolding rot1_def by (rule quad_live [OF assms]) simp
qed

lemma four_cases: "n < 4 \<Longrightarrow> n = 0 \<or> n = 1 \<or> n = 2 \<or> n = (3::nat)"
  by arith

lemma rot1_inj:
  assumes "snd x < 4" "snd y < 4" "rot1 x = rot1 y"
  shows "x = y"
proof -
  from assms(3) have f: "fst x = fst y" and m: "(snd x + 1) mod 4 = (snd y + 1) mod 4"
    by (simp_all add: rot1_def)
  from four_cases [OF assms(1)] four_cases [OF assms(2)] m have "snd x = snd y"
    by (elim disjE) simp_all
  with f show ?thesis by (simp add: prod_eq_iff)
qed

lemma splice_edges_live:
  assumes "linked h" "a \<in> set (live_edges h)" "b \<in> set (live_edges h)"
  shows "\<exists>h' an bn. onext h a = Some an \<and> onext h b = Some bn
           \<and> an \<in> set (live_edges h) \<and> bn \<in> set (live_edges h)
           \<and> splice_edges h a b = Inr h'
           \<and> onext h' = splice_next (onext h) a b (rot1 an) (rot1 bn)
           \<and> fresh h' = fresh h
           \<and> (\<forall>x. quad_ref (store h' x) = quad_ref (store h x)
                  \<and> rot_idx (store h' x) = rot_idx (store h x)
                  \<and> origin (store h' x) = origin (store h x)
                  \<and> vertices (store h' x) = vertices (store h x))"
proof -
  from onext_live [OF assms(1,2)] obtain an where
    an: "onext h a = Some an" "an \<in> set (live_edges h)" by blast
  from onext_live [OF assms(1,3)] obtain bn where
    bn: "onext h b = Some bn" "bn \<in> set (live_edges h)" by blast
  note ra = rot1_live [OF assms(1) an(2)] and rb = rot1_live [OF assms(1) bn(2)]
  define h' where
    "h' = (let h1 = set_next (set_next h (rot1 an) (onext h (rot1 bn))) (rot1 bn) (onext h (rot1 an))
           in set_next (set_next h1 a (onext h1 b)) b (onext h1 a))"
  have "splice_edges h a b = Inr h'"
    by (simp add: splice_edges_def an bn ra rb h'_def)
  moreover have "onext h' = splice_next (onext h) a b (rot1 an) (rot1 bn)"
    by (rule ext) (simp add: h'_def splice_next_def Let_def)
  moreover have "fresh h' = fresh h" by (simp add: h'_def Let_def)
  moreover have "\<forall>x. quad_ref (store h' x) = quad_ref (store h x)
                  \<and> rot_idx (store h' x) = rot_idx (store h x)
                  \<and> origin (store h' x) = origin (store h x)
                  \<and> vertices (store h' x) = vertices (store h x)"
    by (simp add: h'_def Let_def)
  ultimately show ?thesis using an bn by blast
qed

lemma live_edges_cong:
  assumes "fresh h' = fresh h" "\<And>x. quad_ref (store h' x) = quad_ref (store h x)"
  shows "live_edges h' = live_edges h"
  using assms by (simp add: live_edges_def)

lemma rot_cong:
  assumes "quad_ref (store h' x) = quad_ref (store h x)" "rot_idx (store h' x) = rot_idx (store h x)"
  shows "rot h' x n = rot h x n"
  using assms by (simp add: rot_def split: option.split)


lemma splice_next_range:
  assumes "splice_next N a b al be x = v"
  shows "v \<in> {N a, N b, N al, N be, N x}"
  using assms by (auto simp: splice_next_def Let_def split: if_splits)

lemma splice_edges_linked:
  assumes "linked h" "a \<in> set (live_edges h)" "b \<in> set (live_edges h)"
    and "splice_edges h a b = Inr h'"
  shows "linked h'" "live_edges h' = live_edges h"
proof -
  from splice_edges_live [OF assms(1-3)] assms(4) obtain an bn where
    s: "onext h a = Some an" "onext h b = Some bn"
       "an \<in> set (live_edges h)" "bn \<in> set (live_edges h)"
       "onext h' = splice_next (onext h) a b (rot1 an) (rot1 bn)"
       "fresh h' = fresh h"
       "\<And>x. quad_ref (store h' x) = quad_ref (store h x)"
       "\<And>x. rot_idx (store h' x) = rot_idx (store h x)"
    by auto
  show l: "live_edges h' = live_edges h"
    by (rule live_edges_cong) (simp_all add: s)
  note ra = rot1_live(2) [OF assms(1) s(3)] and rb = rot1_live(2) [OF assms(1) s(4)]
  have nx: "\<exists>n \<in> set (live_edges h). onext h' e = Some n" if "e \<in> set (live_edges h)" for e
  proof -
    have "onext h' e \<in> {onext h a, onext h b, onext h (rot1 an), onext h (rot1 bn), onext h e}"
      using splice_next_range [of "onext h" a b "rot1 an" "rot1 bn" e "onext h' e"]
      by (simp add: s(5))
    then obtain y where y: "y \<in> {a, b, rot1 an, rot1 bn, e}" "onext h' e = onext h y"
      by blast
    from y(1) have "y \<in> set (live_edges h)"
      using assms(2,3) ra rb that by blast
    from onext_live [OF assms(1) this] y(2) show ?thesis by simp
  qed
  show "linked h'"
    unfolding linked_def l
  proof (intro ballI conjI)
    fix e assume e: "e \<in> set (live_edges h)"
    with assms(1) show "quad_ref (store h' e) = Some (fst e)" "rot_idx (store h' e) = snd e"
      "set (quad_edges (fst e)) \<subseteq> set (live_edges h)"
      by (auto simp: linked_def s)
    from nx [OF e] show "\<exists>n \<in> set (live_edges h). onext h' e = Some n" .
  qed
qed

lemma clear_edge_fields [simp]:
  "next_ref (store (clear_edge y h) x) = (if x = y then None else next_ref (store h x))"
  "quad_ref (store (clear_edge y h) x) = (if x = y then None else quad_ref (store h x))"
  "origin (store (clear_edge y h) x) = origin (store h x)"
  "rot_idx (store (clear_edge y h) x) = rot_idx (store h x)"
  "fresh (clear_edge y h) = fresh h"
  by (simp_all add: clear_edge_def set_quad_def set_next_def)

lemma fold_clear_edge_fields:
  "next_ref (store (fold clear_edge xs h) x) = (if x \<in> set xs then None else next_ref (store h x))"
  "quad_ref (store (fold clear_edge xs h) x) = (if x \<in> set xs then None else quad_ref (store h x))"
  "origin (store (fold clear_edge xs h) x) = origin (store h x)"
  by (induction xs arbitrary: h) simp_all

lemma other_edges_set:
  assumes "r < 4"
  shows "insert (q, r) (set (take r (quad_edges q) @ drop (r + 1) (quad_edges q))) = set (quad_edges q)"
proof -
  from assms have "r = 0 \<or> r = 1 \<or> r = 2 \<or> r = 3" by arith
  then show ?thesis by (auto simp: quad_edges_def)
qed

lemma edge_delete_live:
  assumes "linked h" "e \<in> set (live_edges h)"
  shows "\<exists>h'. edge_delete h e = Inr h'
     \<and> (\<forall>x. next_ref (store h' x) = (if x \<in> set (quad_edges (fst e)) then None else next_ref (store h x))
           \<and> quad_ref (store h' x) = (if x \<in> set (quad_edges (fst e)) then None else quad_ref (store h x))
           \<and> origin (store h' x) = origin (store h x))"
proof -
  from assms have q: "quad_ref (store h e) = Some (fst e)" "rot_idx (store h e) = snd e"
    by (auto simp: linked_def)
  from assms(2) have r: "snd e < 4" by (simp add: in_live_edges)
  have e: "e = (fst e, snd e)" by simp
  note s = other_edges_set [OF r, of "fst e", folded e, symmetric]
  show ?thesis
    by (simp add: edge_delete_def q Let_def fold_clear_edge_fields s)
qed

lemma oprev_live:
  assumes "linked h" "e \<in> set (live_edges h)"
  shows "\<exists>p \<in> set (live_edges h). oprev h e = Inr p"
proof -
  from rot_live_live [OF assms, of 1] obtain x where
    x: "x \<in> set (live_edges h)" "rot h e 1 = Inr x" by blast
  from onext_live [OF assms(1) x(1)] obtain y where
    y: "y \<in> set (live_edges h)" "onext h x = Some y" by blast
  from rot_live_live [OF assms(1) y(1), of 1] obtain p where
    p: "p \<in> set (live_edges h)" "rot h y 1 = Inr p" by blast
  show ?thesis using x y p by (auto simp: oprev_def)
qed

lemma delete_edge_live:
  assumes "linked h" "e \<in> set (live_edges h)"
  shows "\<exists>h'. delete_edge h e = Inr h'
     \<and> (\<forall>x \<in> set (quad_edges (fst e)). next_ref (store h' x) = None \<and> quad_ref (store h' x) = None)
     \<and> (\<forall>x. x \<notin> set (quad_edges (fst e)) \<longrightarrow> quad_ref (store h' x) = quad_ref (store h x))
     \<and> (\<forall>x. origin (store h' x) = origin (store h x))"
proof -
  from oprev_live [OF assms] obtain p where
    p: "p \<in> set (live_edges h)" "oprev h e = Inr p" by blast
  from splice_edges_live [OF assms p(1)] obtain h1 where
    h1: "splice_edges h e p = Inr h1"
        "\<And>x. quad_ref (store h1 x) = quad_ref (store h x)"
        "\<And>x. origin (store h1 x) = origin (store h x)"
    by blast
  note l1 = splice_edges_linked [OF assms p(1) h1(1)]
  from assms(2) have e1: "e \<in> set (live_edges h1)" by (simp add: l1)
  from rot_live_live [OF l1(1) e1, of 2] obtain es where
    es: "es \<in> set (live_edges h1)" "sym_edge h1 e = Inr es" by (auto simp: sym_edge_def)
  from oprev_live [OF l1(1) es(1)] obtain ps where
    ps: "ps \<in> set (live_edges h1)" "oprev h1 es = Inr ps" by blast
  from splice_edges_live [OF l1(1) es(1) ps(1)] obtain h2 where
    h2: "splice_edges h1 es ps = Inr h2"
        "\<And>x. quad_ref (store h2 x) = quad_ref (store h1 x)"
        "\<And>x. origin (store h2 x) = origin (store h1 x)"
    by blast
  note l2 = splice_edges_linked [OF l1(1) es(1) ps(1) h2(1)]
  from e1 have e2: "e \<in> set (live_edges h2)" by (simp add: l2)
  from edge_delete_live [OF l2(1) e2] obtain h' where
    h': "edge_delete h2 e = Inr h'"
      "\<And>x. next_ref (store h' x) = (if x \<in> set (quad_edges (fst e)) then None else next_ref (store h2 x))"
      "\<And>x. quad_ref (store h' x) = (if x \<in> set (quad_edges (fst e)) then None else quad_ref (store h2 x))"
      "\<And>x. origin (store h' x) = origin (store h2 x)"
    by blast
  have "delete_edge h e = Inr h'"
    by (simp add: delete_edge_def p h1 es ps h2 h')
  then show ?thesis by (simp add: h' h2 h1)
qed

section \<open>Facts about \<open>Quad.make\<close>\<close>

lemma make_fields:
  "make h = (h', e) \<Longrightarrow> e = (fresh h, 0)"
  "make h = (h', e) \<Longrightarrow> fresh h' = Suc (fresh h)"
  "make h = (h', e) \<Longrightarrow> i < 4 \<Longrightarrow> quad_ref (store h' (fresh h, i)) = Some (fresh h)"
  "make h = (h', e) \<Longrightarrow> i < 4 \<Longrightarrow> rot_idx (store h' (fresh h, i)) = i"
  "make h = (h', e) \<Longrightarrow> i < 4 \<Longrightarrow> origin (store h' (fresh h, i)) = None"
  "make h = (h', e) \<Longrightarrow> i < 4 \<Longrightarrow> vertices (store h' (fresh h, i)) = None"
  "make h = (h', e) \<Longrightarrow> fst x \<noteq> fresh h \<Longrightarrow> store h' x = store h x"
  using four_cases [of i]
  by (auto simp: make_def Let_def new_edge_def prod_eq_iff)

lemma make_next:
  assumes "make h = (h', e)"
  shows "onext h' (fresh h, 0) = Some (fresh h, 0)" "onext h' (fresh h, 2) = Some (fresh h, 2)"
        "onext h' (fresh h, 1) = Some (fresh h, 3)" "onext h' (fresh h, 3) = Some (fresh h, 1)"
  using assms by (auto simp: make_def Let_def new_edge_def onext_def)

lemma live_edges_empty [simp]: "live_edges empty_heap = []"
  by (simp add: live_edges_def empty_heap_def)

lemma linked_empty: "linked empty_heap"
  by (simp add: linked_def)

lemma well_formed_empty: "well_formed empty_heap"
  by (simp add: well_formed_def linked_empty)

lemma make_live:
  assumes "make h = (h', e)"
  shows "x \<in> set (live_edges h') \<longleftrightarrow> x \<in> set (live_edges h) \<or> (fst x = fresh h \<and> snd x < 4)"
proof (cases "fst x = fresh h")
  case True
  then have x: "x = (fresh h, snd x)" by (simp add: prod_eq_iff)
  show ?thesis
  proof (cases "snd x < 4")
    case True
    from make_fields(3) [OF assms True] x have "quad_ref (store h' x) = Some (fresh h)" by simp
    with True \<open>fst x = fresh h\<close> show ?thesis
      by (simp add: in_live_edges make_fields(2) [OF assms])
  next
    case False
    then show ?thesis by (simp add: in_live_edges)
  qed
next
  case False
  with make_fields(7) [OF assms False] show ?thesis
    by (auto simp: in_live_edges make_fields(2) [OF assms])
qed

lemma make_old:
  assumes "make h = (h', e)" "x \<in> set (live_edges h)"
  shows "store h' x = store h x"
proof -
  from assms(2) have "fst x \<noteq> fresh h" by (simp add: in_live_edges)
  from make_fields(7) [OF assms(1) this] show ?thesis .
qed

lemma make_onext_new:
  assumes "make h = (h', e)" "fst x = fresh h" "snd x < 4"
  shows "onext h' x = Some (fresh h, if even (snd x) then snd x else (snd x + 2) mod 4)"
proof -
  have x: "x = (fresh h, snd x)" using assms(2) by (simp add: prod_eq_iff)
  from four_cases [OF assms(3)] make_next [OF assms(1)] show ?thesis
    by (elim disjE; subst (1) x) simp_all
qed

lemma make_linked:
  assumes "linked h" "make h = (h', e)"
  shows "linked h'"
  unfolding linked_def
proof (intro ballI conjI)
  fix x assume x: "x \<in> set (live_edges h')"
  note m = make_live [OF assms(2)]
  from x consider (old) "x \<in> set (live_edges h)" | (new) "fst x = fresh h" "snd x < 4"
    unfolding m by blast
  then show "quad_ref (store h' x) = Some (fst x)"
  proof cases
    case old
    with assms(1) make_old [OF assms(2) old] show ?thesis by (simp add: linked_def)
  next
    case new
    then have "x = (fresh h, snd x)" by (simp add: prod_eq_iff)
    with make_fields(3) [OF assms(2) new(2)] new(1) show ?thesis by simp
  qed
  from x consider (old) "x \<in> set (live_edges h)" | (new) "fst x = fresh h" "snd x < 4"
    unfolding m by blast
  then show "rot_idx (store h' x) = snd x"
  proof cases
    case old
    with assms(1) make_old [OF assms(2) old] show ?thesis by (simp add: linked_def)
  next
    case new
    then have "x = (fresh h, snd x)" by (simp add: prod_eq_iff)
    with make_fields(4) [OF assms(2) new(2)] show ?thesis by simp
  qed
  from x consider (old) "x \<in> set (live_edges h)" | (new) "fst x = fresh h" "snd x < 4"
    unfolding m by blast
  then show "set (quad_edges (fst x)) \<subseteq> set (live_edges h')"
  proof cases
    case old
    with assms(1) have "set (quad_edges (fst x)) \<subseteq> set (live_edges h)" by (simp add: linked_def)
    then show ?thesis using m by blast
  next
    case new
    then show ?thesis by (auto simp: m quad_edges_def)
  qed
  from x consider (old) "x \<in> set (live_edges h)" | (new) "fst x = fresh h" "snd x < 4"
    unfolding m by blast
  then show "\<exists>n \<in> set (live_edges h'). onext h' x = Some n"
  proof cases
    case old
    from onext_live [OF assms(1) old] obtain n where
      "n \<in> set (live_edges h)" "onext h x = Some n" by blast
    with make_old [OF assms(2) old] show ?thesis by (auto simp: m onext_def)
  next
    case new
    from make_onext_new [OF assms(2) new] new show ?thesis by (simp add: m)
  qed
qed

lemma make_empty_linked: "linked (fst (make empty_heap))"
  by (rule make_linked [OF linked_empty]) (rule surjective_pairing)

lemma make_empty_live: "i < 4 \<Longrightarrow> (0, i) \<in> set (live_edges (fst (make empty_heap)))"
  using make_live [of empty_heap "fst (make empty_heap)" "snd (make empty_heap)" "(0, i)"]
  by (simp add: empty_heap_def)

section \<open>The operators on a linked store\<close>

lemma rot2_live:
  assumes "linked h" "e \<in> set (live_edges h)"
  shows "rot h e 2 = Inr (rot2 e)" "sym_edge h e = Inr (rot2 e)" "rot2 e \<in> set (live_edges h)"
proof -
  have "nat ((int (snd e) + 2) mod 4) = (snd e + 2) mod 4"
    by (simp add: nat_mod_distrib nat_add_distrib)
  then show "rot h e 2 = Inr (rot2 e)"
    using rot_live [OF assms, of 2] by (simp add: rot2_def)
  then show "sym_edge h e = Inr (rot2 e)" by (simp add: sym_edge_def)
  show "rot2 e \<in> set (live_edges h)"
    unfolding rot2_def by (rule quad_live [OF assms]) simp
qed

lemma rot3_live:
  assumes "linked h" "e \<in> set (live_edges h)"
  shows "rot h e (- 1) = Inr (rot3 e)" "rot3 e \<in> set (live_edges h)"
proof -
  have "int (snd e) + 3 = (int (snd e) + - 1) + 4" by simp
  then have "(int (snd e) + - 1) mod 4 = (int (snd e) + 3) mod 4"
    by (simp only: mod_add_self2)
  then have "nat ((int (snd e) + - 1) mod 4) = (snd e + 3) mod 4"
    by (simp add: nat_mod_distrib nat_add_distrib)
  then show "rot h e (- 1) = Inr (rot3 e)"
    using rot_live [OF assms, of "- 1"] by (simp add: rot3_def)
  show "rot3 e \<in> set (live_edges h)"
    unfolding rot3_def by (rule quad_live [OF assms]) simp
qed


lemma onext_live_eq:
  assumes "linked h" "e \<in> set (live_edges h)" "onext h e = Some n"
  shows "n \<in> set (live_edges h)"
  using onext_live [OF assms(1,2)] assms(3) by auto

lemma lnext_eq:
  assumes "linked h" "e \<in> set (live_edges h)" "onext h (rot3 e) = Some n"
  shows "lnext h e = Inr (rot1 n)"
proof -
  note r = rot3_live [OF assms(1,2)]
  from onext_live_eq [OF assms(1) r(2) assms(3)] have "n \<in> set (live_edges h)" .
  from rot1_live(1) [OF assms(1) this] show ?thesis
    by (simp add: lnext_def r(1) assms(3))
qed

lemma oprev_eq:
  assumes "linked h" "e \<in> set (live_edges h)" "onext h (rot1 e) = Some n"
  shows "oprev h e = Inr (rot1 n)"
proof -
  note r = rot1_live [OF assms(1,2)]
  from onext_live_eq [OF assms(1) r(2) assms(3)] have "n \<in> set (live_edges h)" .
  from rot1_live(1) [OF assms(1) this] show ?thesis
    by (simp add: oprev_def r(1) assms(3))
qed

lemma rnext_eq:
  assumes "linked h" "e \<in> set (live_edges h)" "onext h (rot1 e) = Some n"
  shows "rnext h e = Inr (rot3 n)"
proof -
  note r = rot1_live [OF assms(1,2)]
  from onext_live_eq [OF assms(1) r(2) assms(3)] have "n \<in> set (live_edges h)" .
  from rot3_live(1) [OF assms(1) this] show ?thesis
    by (simp add: rnext_def r(1) assms(3))
qed

lemma dnext_eq:
  assumes "linked h" "e \<in> set (live_edges h)" "onext h (rot2 e) = Some n"
  shows "dnext h e = Inr (rot2 n)"
proof -
  note r = rot2_live [OF assms(1,2)]
  from onext_live_eq [OF assms(1) r(3) assms(3)] have "n \<in> set (live_edges h)" .
  from rot2_live(2) [OF assms(1) this] show ?thesis
    by (simp add: dnext_def r(2) assms(3))
qed

lemma linked_set_org [simp]: "linked (set_org h e v) = linked h"
  by (simp add: linked_def)

lemma origin_set_org [simp]:
  "origin (store (set_org h e v) x) = (if x = e then v else origin (store h x))"
  by (simp add: set_org_def)

lemma vertices_set_org [simp]: "vertices (store (set_org h e v) x) = vertices (store h x)"
  by (simp add: set_org_def)

lemma set_dest_live:
  assumes "linked h" "e \<in> set (live_edges h)"
  shows "set_dest h e v = Inr (set_org h (rot2 e) v)"
  by (simp add: set_dest_def rot2_live(2) [OF assms])

lemma dest_live:
  assumes "linked h" "e \<in> set (live_edges h)"
  shows "dest h e = Inr (org h (rot2 e))"
  by (simp add: dest_def rot2_live(2) [OF assms])

text \<open>The store after \<open>Quad.make\<close>, field by field.\<close>

lemma make_spec:
  assumes "make h = (h', e)"
  shows "e = (fresh h, 0)" "fresh h' = Suc (fresh h)"
    "onext h' = (onext h)((fresh h, 0) := Some (fresh h, 0), (fresh h, 2) := Some (fresh h, 2),
                          (fresh h, 1) := Some (fresh h, 3), (fresh h, 3) := Some (fresh h, 1))"
    "org h' = (org h)((fresh h, 0) := None, (fresh h, 2) := None,
                      (fresh h, 1) := None, (fresh h, 3) := None)"
proof -
  from assms have h': "h' = \<lparr>store = (store h)((fresh h, 0) := new_edge (fresh h) 0 0,
        (fresh h, 2) := new_edge (fresh h) 2 2, (fresh h, 1) := new_edge (fresh h) 1 3,
        (fresh h, 3) := new_edge (fresh h) 3 1), fresh = Suc (fresh h)\<rparr>"
    and e: "e = (fresh h, 0)"
    by (auto simp: make_def Let_def)
  show "e = (fresh h, 0)" by (rule e)
  show "fresh h' = Suc (fresh h)" by (simp add: h')
  show "onext h' = (onext h)((fresh h, 0) := Some (fresh h, 0), (fresh h, 2) := Some (fresh h, 2),
                          (fresh h, 1) := Some (fresh h, 3), (fresh h, 3) := Some (fresh h, 1))"
    by (rule ext) (simp add: h' onext_def new_edge_def)
  show "org h' = (org h)((fresh h, 0) := None, (fresh h, 2) := None,
                      (fresh h, 1) := None, (fresh h, 3) := None)"
    by (rule ext) (simp add: h' org_def new_edge_def)
qed

lemma splice_spec:
  assumes "linked h" "a \<in> set (live_edges h)" "b \<in> set (live_edges h)"
    and "onext h a = Some an" "onext h b = Some bn"
  shows "\<exists>h'. splice_edges h a b = Inr h' \<and> linked h' \<and> live_edges h' = live_edges h
           \<and> fresh h' = fresh h \<and> org h' = org h
           \<and> onext h' = splice_next (onext h) a b (rot1 an) (rot1 bn)"
proof -
  from splice_edges_live [OF assms(1-3)] assms(4,5) obtain h' where
    h': "splice_edges h a b = Inr h'" "fresh h' = fresh h"
        "onext h' = splice_next (onext h) a b (rot1 an) (rot1 bn)"
        "\<And>x. origin (store h' x) = origin (store h x)"
    by auto
  from splice_edges_linked [OF assms(1-3) h'(1)] h' show ?thesis
    by (auto simp: org_def fun_eq_iff)
qed

section \<open>The three-site case, step by step\<close>

lemma make_linked_spec:
  assumes "linked h"
  shows "\<exists>h'. make h = (h', (fresh h, 0)) \<and> linked h' \<and> fresh h' = Suc (fresh h)
     \<and> onext h' = (onext h)((fresh h, 0) := Some (fresh h, 0), (fresh h, 2) := Some (fresh h, 2),
                            (fresh h, 1) := Some (fresh h, 3), (fresh h, 3) := Some (fresh h, 1))
     \<and> org h' = (org h)((fresh h, 0) := None, (fresh h, 2) := None,
                        (fresh h, 1) := None, (fresh h, 3) := None)
     \<and> (\<forall>x. x \<in> set (live_edges h') \<longleftrightarrow>
              x \<in> set (live_edges h) \<or> (fst x = fresh h \<and> snd x < 4))"
proof -
  obtain h' e where m: "make h = (h', e)" by (cases "make h")
  note s = make_spec [OF m]
  from m s(1) have "make h = (h', (fresh h, 0))" by simp
  moreover note make_linked [OF assms m] s(2,3,4)
  moreover have "\<forall>x. x \<in> set (live_edges h') \<longleftrightarrow>
              x \<in> set (live_edges h) \<or> (fst x = fresh h \<and> snd x < 4)"
    using make_live [OF m] by blast
  ultimately show ?thesis by blast
qed

lemma rot_simps [simp]:
  "rot1 (q, 0) = (q, 1)" "rot1 (q, 1) = (q, 2)" "rot1 (q, 2) = (q, 3)" "rot1 (q, 3) = (q, 0)"
  "rot2 (q, 0) = (q, 2)" "rot2 (q, 1) = (q, 3)" "rot2 (q, 2) = (q, 0)" "rot2 (q, 3) = (q, 1)"
  "rot3 (q, 0) = (q, 3)" "rot3 (q, 1) = (q, 0)" "rot3 (q, 2) = (q, 1)" "rot3 (q, 3) = (q, 2)"
  by (simp_all add: rot1_def rot2_def rot3_def)

lemma rot_simps_Suc [simp]:
  "rot1 (q, Suc 0) = (q, 2)" "rot2 (q, Suc 0) = (q, 3)" "rot3 (q, Suc 0) = (q, 0)"
  by (simp_all add: rot1_def rot2_def rot3_def)

lemma delaunay3_chain:
  assumes "linked h"
  shows "\<exists>h5. chain3 h s1 s2 s3 h5
     \<and> delaunay3 s1 s2 s3 h =
         (if ccw s1 s2 s3 then
            andthen (connect h5 (Suc (fresh h), 0) (fresh h, 0)) (\<lambda>(h6, c).
            andthen (sym_edge h6 (Suc (fresh h), 0)) (\<lambda>bs. Inr (h6, (fresh h, 0), bs)))
          else if ccw s1 s3 s2 then
            andthen (connect h5 (Suc (fresh h), 0) (fresh h, 0)) (\<lambda>(h6, c).
            andthen (sym_edge h6 c) (\<lambda>cs. Inr (h6, cs, c)))
          else
            andthen (sym_edge h5 (Suc (fresh h), 0)) (\<lambda>bs. Inr (h5, (fresh h, 0), bs)))"
proof -
  define q where "q = fresh h"
  from make_linked_spec [OF assms] obtain h1 where
    m1: "make h = (h1, (q, 0))" and l1: "linked h1" and f1: "fresh h1 = Suc q"
    and n1: "onext h1 = (onext h)((q, 0) := Some (q, 0), (q, 2) := Some (q, 2),
                            (q, 1) := Some (q, 3), (q, 3) := Some (q, 1))"
    and o1: "org h1 = (org h)((q, 0) := None, (q, 2) := None, (q, 1) := None, (q, 3) := None)"
    and v1: "\<And>x. x \<in> set (live_edges h1) \<longleftrightarrow>
              x \<in> set (live_edges h) \<or> (fst x = q \<and> snd x < 4)"
    unfolding q_def by blast
  from make_linked_spec [OF l1] obtain h2 where
    m2: "make h1 = (h2, (Suc q, 0))" and l2: "linked h2" and f2: "fresh h2 = Suc (Suc q)"
    and n2: "onext h2 = (onext h1)((Suc q, 0) := Some (Suc q, 0), (Suc q, 2) := Some (Suc q, 2),
                            (Suc q, 1) := Some (Suc q, 3), (Suc q, 3) := Some (Suc q, 1))"
    and o2: "org h2 = (org h1)((Suc q, 0) := None, (Suc q, 2) := None,
                            (Suc q, 1) := None, (Suc q, 3) := None)"
    and v2: "\<And>x. x \<in> set (live_edges h2) \<longleftrightarrow>
              x \<in> set (live_edges h1) \<or> (fst x = Suc q \<and> snd x < 4)"
    unfolding f1 by blast
  have la: "(q, i) \<in> set (live_edges h2)" "(Suc q, i) \<in> set (live_edges h2)" if "i < 4" for i
    using that by (simp_all add: v1 v2)
  have sa: "sym_edge h2 (q, 0) = Inr (q, 2)"
    using rot2_live(2) [OF l2 la(1) [of 0]] by simp
  have na: "onext h2 (q, 2) = Some (q, 2)" "onext h2 (Suc q, 0) = Some (Suc q, 0)"
    by (simp_all add: n2 n1)
  have "(2::nat) < 4" "(0::nat) < 4" by simp_all
  note sp = splice_spec [OF l2 la(1) [OF this(1)] la(2) [OF this(2)] na, unfolded rot_simps]
  from sp obtain h3 where
    s3: "splice_edges h2 (q, 2) (Suc q, 0) = Inr h3" and l3: "linked h3"
    and v3: "live_edges h3 = live_edges h2" and f3: "fresh h3 = fresh h2" and o3: "org h3 = org h2"
    and n3: "onext h3 = splice_next (onext h2) (q, 2) (Suc q, 0) (q, 3) (Suc q, 1)"
    by blast
  define h4 where "h4 = set_org (set_org h3 (q, 0) (Some (Pt s1))) (q, 2) (Some (Pt s2))"
  define h5 where "h5 = set_org (set_org h4 (Suc q, 0) (Some (Pt s2))) (Suc q, 2) (Some (Pt s3))"
  have d4: "set_dest (set_org h3 (q, 0) (Some (Pt s1))) (q, 0) (Some (Pt s2)) = Inr h4"
    using set_dest_live [of "set_org h3 (q, 0) (Some (Pt s1))" "(q, 0)" "Some (Pt s2)"] l3 la(1) [of 0]
    by (simp add: v3 h4_def)
  have l4: "linked h4" and v4: "live_edges h4 = live_edges h2"
    by (simp_all add: h4_def l3 v3)
  have d5: "set_dest (set_org h4 (Suc q, 0) (Some (Pt s2))) (Suc q, 0) (Some (Pt s3)) = Inr h5"
    using set_dest_live [of "set_org h4 (Suc q, 0) (Some (Pt s2))" "(Suc q, 0)" "Some (Pt s3)"] l4 la(2) [of 0]
    by (simp add: v4 h5_def)
  have l5: "linked h5" and v5: "live_edges h5 = live_edges h2"
    by (simp_all add: h5_def l4 v4)
  have f5: "fresh h5 = q + 2"
    by (simp add: h5_def h4_def f3 f2)
  have n5: "onext h5 = onext h3"
    by (rule ext) (simp add: h5_def h4_def)
  have c: "chain3 h s1 s2 s3 h5"
    unfolding chain3_def Let_def q_def [symmetric]
    apply (intro conjI allI)
                  apply (rule l5)
                 apply (rule f5)
                apply (simp add: v5 v2 v1; blast)
               apply (simp_all add: n5 n3 n2 n1 splice_next_def h5_def h4_def o3 o2 o1)
    done
  have "delaunay3 s1 s2 s3 h =
         (if ccw s1 s2 s3 then
            andthen (connect h5 (Suc q, 0) (q, 0)) (\<lambda>(h6, c).
            andthen (sym_edge h6 (Suc q, 0)) (\<lambda>bs. Inr (h6, (q, 0), bs)))
          else if ccw s1 s3 s2 then
            andthen (connect h5 (Suc q, 0) (q, 0)) (\<lambda>(h6, c).
            andthen (sym_edge h6 c) (\<lambda>cs. Inr (h6, cs, c)))
          else
            andthen (sym_edge h5 (Suc q, 0)) (\<lambda>bs. Inr (h5, (q, 0), bs)))"
    by (simp add: delaunay3_def m1 m2 sa s3 d4 d5)
  with c show ?thesis unfolding q_def by blast
qed


lemma connect_chain3:
  assumes "chain3 h s1 s2 s3 h5"
  shows "\<exists>h9. connect h5 (Suc (fresh h), 0) (fresh h, 0) = Inr (h9, (fresh h + 2, 0))
     \<and> triangle3 h s1 s2 s3 h9"
proof -
  define q where "q = fresh h"
  from assms have l5: "linked h5" and f5: "fresh h5 = q + 2"
    and v5: "\<And>x. x \<in> set (live_edges h5) \<longleftrightarrow>
            x \<in> set (live_edges h) \<or> ((fst x = q \<or> fst x = Suc q) \<and> snd x < 4)"
    and n5: "onext h5 (q, 0) = Some (q, 0)" "onext h5 (q, 1) = Some (q, 3)"
      "onext h5 (q, 2) = Some (Suc q, 0)" "onext h5 (q, 3) = Some (Suc q, 3)"
      "onext h5 (Suc q, 0) = Some (q, 2)" "onext h5 (Suc q, 1) = Some (q, 1)"
      "onext h5 (Suc q, 2) = Some (Suc q, 2)" "onext h5 (Suc q, 3) = Some (Suc q, 1)"
    and o5: "org h5 (q, 0) = Some (Pt s1)" "org h5 (q, 2) = Some (Pt s2)"
      "org h5 (Suc q, 0) = Some (Pt s2)" "org h5 (Suc q, 2) = Some (Pt s3)"
    unfolding chain3_def Let_def q_def by blast+
  from make_linked_spec [OF l5] obtain h6 where
    m6: "make h5 = (h6, (q + 2, 0))" and l6: "linked h6" and f6: "fresh h6 = q + 3"
    and n6: "onext h6 = (onext h5)((q + 2, 0) := Some (q + 2, 0), (q + 2, 2) := Some (q + 2, 2),
                            (q + 2, 1) := Some (q + 2, 3), (q + 2, 3) := Some (q + 2, 1))"
    and o6: "org h6 = (org h5)((q + 2, 0) := None, (q + 2, 2) := None,
                            (q + 2, 1) := None, (q + 2, 3) := None)"
    and v6: "\<And>x. x \<in> set (live_edges h6) \<longleftrightarrow>
              x \<in> set (live_edges h5) \<or> (fst x = q + 2 \<and> snd x < 4)"
    unfolding f5 by auto
  have lv: "(q, i) \<in> set (live_edges h6)" "(Suc q, i) \<in> set (live_edges h6)"
    "(q + 2, i) \<in> set (live_edges h6)" if "i < 4" for i
    using that by (simp_all add: v6 v5)
  have i0: "(0::nat) < 4" and i2: "(2::nat) < 4" by simp_all
  have db: "dest h6 (Suc q, 0) = Inr (Some (Pt s3))"
    using dest_live [OF l6 lv(2) [OF i0]] by (simp add: o6 o5)
  define h7 where
    "h7 = set_org (set_org h6 (q + 2, 0) (Some (Pt s3))) (q + 2, 2) (Some (Pt s1))"
  have oa: "org h6 (q, 0) = Some (Pt s1)" by (simp add: o6 o5)
  have d7: "set_dest (set_org h6 (q + 2, 0) (Some (Pt s3))) (q + 2, 0) (org h6 (q, 0)) = Inr h7"
    using set_dest_live [of "set_org h6 (q + 2, 0) (Some (Pt s3))" "(q + 2, 0)" "Some (Pt s1)"]
      l6 lv(3) [OF i0]
    by (simp add: h7_def oa)
  have l7: "linked h7" and v7: "live_edges h7 = live_edges h6"
    by (simp_all add: h7_def l6)
  have n7: "onext h7 = onext h6" by (rule ext) (simp add: h7_def)
  have lv7: "(q, i) \<in> set (live_edges h7)" "(Suc q, i) \<in> set (live_edges h7)"
    "(q + 2, i) \<in> set (live_edges h7)" if "i < 4" for i
    using lv [OF that] by (simp_all add: v7)
  have nb3: "onext h7 (rot3 (Suc q, 0)) = Some (Suc q, 1)"
    by (simp add: n7 n6 n5)
  have ln: "lnext h7 (Suc q, 0) = Inr (Suc q, 2)"
    using lnext_eq [OF l7 lv7(2) [OF i0] nb3] by simp
  have nc: "onext h7 (q + 2, 0) = Some (q + 2, 0)" "onext h7 (Suc q, 2) = Some (Suc q, 2)"
    by (simp_all add: n7 n6 n5)
  note sp = splice_spec [OF l7 lv7(3) [OF i0] lv7(2) [OF i2] nc, unfolded rot_simps]
  from sp obtain h8 where
    s8: "splice_edges h7 (q + 2, 0) (Suc q, 2) = Inr h8" and l8: "linked h8"
    and v8: "live_edges h8 = live_edges h7" and f8: "fresh h8 = fresh h7" and o8: "org h8 = org h7"
    and n8: "onext h8 = splice_next (onext h7) (q + 2, 0) (Suc q, 2) (q + 2, 1) (Suc q, 3)"
    by blast
  have lv8: "(q, i) \<in> set (live_edges h8)" "(q + 2, i) \<in> set (live_edges h8)" if "i < 4" for i
    using lv7 [OF that] by (simp_all add: v8)
  have sc: "sym_edge h8 (q + 2, 0) = Inr (q + 2, 2)"
    using rot2_live(2) [OF l8 lv8(2) [OF i0]] by simp
  have nd: "onext h8 (q + 2, 2) = Some (q + 2, 2)" "onext h8 (q, 0) = Some (q, 0)"
    by (simp_all add: n8 splice_next_def n7 n6 n5)
  note sp2 = splice_spec [OF l8 lv8(2) [OF i2] lv8(1) [OF i0] nd, unfolded rot_simps]
  from sp2 obtain h9 where
    s9: "splice_edges h8 (q + 2, 2) (q, 0) = Inr h9" and l9: "linked h9"
    and v9: "live_edges h9 = live_edges h8" and f9: "fresh h9 = fresh h8" and o9: "org h9 = org h8"
    and n9: "onext h9 = splice_next (onext h8) (q + 2, 2) (q, 0) (q + 2, 3) (q, 1)"
    by blast
  have c: "connect h5 (Suc q, 0) (q, 0) = Inr (h9, (q + 2, 0))"
    using m6 db d7 ln s8 sc s9 by (simp add: connect_def)
  have f: "fresh h9 = q + 3" by (simp add: f9 f8 h7_def f6)
  have t: "triangle3 h s1 s2 s3 h9"
    unfolding triangle3_def Let_def q_def [symmetric]
    apply (intro conjI allI)
                      apply (rule l9)
                      apply (rule f)
                      apply (simp add: v9 v8 v7 v6 v5; blast)
                      apply (simp_all add: n9 n8 n7 n6 n5 [unfolded One_nat_def] splice_next_def
                        o9 o8 h7_def o6 o5)
    done
  from c t show ?thesis unfolding q_def by blast
qed


lemma chain3_lnext:
  assumes "chain3 h s1 s2 s3 h5"
  shows "lnext h5 (fresh h, 0) = Inr (Suc (fresh h), 0)"
    "lnext h5 (Suc (fresh h), 0) = Inr (Suc (fresh h), 2)"
    "lnext h5 (Suc (fresh h), 2) = Inr (fresh h, 2)"
    "lnext h5 (fresh h, 2) = Inr (fresh h, 0)"
    "sym_edge h5 (Suc (fresh h), 0) = Inr (Suc (fresh h), 2)"
    "dest h5 (fresh h, 0) = Inr (Some (Pt s2))" "dest h5 (Suc (fresh h), 0) = Inr (Some (Pt s3))"
proof -
  define q where "q = fresh h"
  from assms have l: "linked h5"
    and v: "\<And>x. x \<in> set (live_edges h5) \<longleftrightarrow>
            x \<in> set (live_edges h) \<or> ((fst x = q \<or> fst x = Suc q) \<and> snd x < 4)"
    and n: "onext h5 (q, 0) = Some (q, 0)" "onext h5 (q, 1) = Some (q, 3)"
      "onext h5 (q, 2) = Some (Suc q, 0)" "onext h5 (q, 3) = Some (Suc q, 3)"
      "onext h5 (Suc q, 0) = Some (q, 2)" "onext h5 (Suc q, 1) = Some (q, 1)"
      "onext h5 (Suc q, 2) = Some (Suc q, 2)" "onext h5 (Suc q, 3) = Some (Suc q, 1)"
    and o: "org h5 (q, 0) = Some (Pt s1)" "org h5 (q, 2) = Some (Pt s2)"
      "org h5 (Suc q, 0) = Some (Pt s2)" "org h5 (Suc q, 2) = Some (Pt s3)"
    unfolding chain3_def Let_def q_def by blast+
  have lv: "(q, i) \<in> set (live_edges h5)" "(Suc q, i) \<in> set (live_edges h5)" if "i < 4" for i
    using that by (simp_all add: v)
  have i0: "(0::nat) < 4" and i2: "(2::nat) < 4" by simp_all
  show "lnext h5 (fresh h, 0) = Inr (Suc (fresh h), 0)"
    using lnext_eq [OF l lv(1) [OF i0], of "(Suc q, 3)"] n by (simp add: q_def)
  show "lnext h5 (Suc (fresh h), 0) = Inr (Suc (fresh h), 2)"
    using lnext_eq [OF l lv(2) [OF i0], of "(Suc q, 1)"] n by (simp add: q_def)
  show "lnext h5 (Suc (fresh h), 2) = Inr (fresh h, 2)"
    using lnext_eq [OF l lv(2) [OF i2], of "(q, 1)"] n by (simp add: q_def)
  show "lnext h5 (fresh h, 2) = Inr (fresh h, 0)"
    using lnext_eq [OF l lv(1) [OF i2], of "(q, 3)"] n by (simp add: q_def)
  show "sym_edge h5 (Suc (fresh h), 0) = Inr (Suc (fresh h), 2)"
    using rot2_live(2) [OF l lv(2) [OF i0]] by (simp add: q_def)
  show "dest h5 (fresh h, 0) = Inr (Some (Pt s2))"
    using dest_live [OF l lv(1) [OF i0]] o by (simp add: q_def)
  show "dest h5 (Suc (fresh h), 0) = Inr (Some (Pt s3))"
    using dest_live [OF l lv(2) [OF i0]] o by (simp add: q_def)
qed

lemma triangle3_lnext:
  assumes "triangle3 h s1 s2 s3 h9"
  shows "lnext h9 (fresh h, 0) = Inr (Suc (fresh h), 0)"
    "lnext h9 (Suc (fresh h), 0) = Inr (fresh h + 2, 0)"
    "lnext h9 (fresh h + 2, 0) = Inr (fresh h, 0)"
    "sym_edge h9 (Suc (fresh h), 0) = Inr (Suc (fresh h), 2)"
    "sym_edge h9 (fresh h + 2, 0) = Inr (fresh h + 2, 2)"
    "dest h9 (fresh h, 0) = Inr (Some (Pt s2))" "dest h9 (Suc (fresh h), 0) = Inr (Some (Pt s3))"
    "dest h9 (fresh h + 2, 0) = Inr (Some (Pt s1))"
proof -
  define q where "q = fresh h"
  from assms have l: "linked h9"
    and v: "\<And>x. x \<in> set (live_edges h9) \<longleftrightarrow>
            x \<in> set (live_edges h) \<or> ((fst x = q \<or> fst x = Suc q \<or> fst x = q + 2) \<and> snd x < 4)"
    and n: "onext h9 (q, 3) = Some (Suc q, 3)" "onext h9 (Suc q, 3) = Some (q + 2, 3)"
      "onext h9 (q + 2, 3) = Some (q, 3)"
    and o: "org h9 (q, 2) = Some (Pt s2)" "org h9 (Suc q, 2) = Some (Pt s3)"
      "org h9 (q + 2, 2) = Some (Pt s1)"
    unfolding triangle3_def Let_def q_def by blast+
  have lv: "(q, i) \<in> set (live_edges h9)" "(Suc q, i) \<in> set (live_edges h9)"
    "(q + 2, i) \<in> set (live_edges h9)" if "i < 4" for i
    using that by (simp_all add: v)
  have i0: "(0::nat) < 4" by simp
  show "lnext h9 (fresh h, 0) = Inr (Suc (fresh h), 0)"
    using lnext_eq [OF l lv(1) [OF i0], of "(Suc q, 3)"] n by (simp add: q_def)
  show "lnext h9 (Suc (fresh h), 0) = Inr (fresh h + 2, 0)"
    using lnext_eq [OF l lv(2) [OF i0], of "(q + 2, 3)"] n by (simp add: q_def)
  show "lnext h9 (fresh h + 2, 0) = Inr (fresh h, 0)"
    using lnext_eq [OF l lv(3) [OF i0], of "(q, 3)"] n by (simp add: q_def)
  show "sym_edge h9 (Suc (fresh h), 0) = Inr (Suc (fresh h), 2)"
    using rot2_live(2) [OF l lv(2) [OF i0]] by (simp add: q_def)
  show "sym_edge h9 (fresh h + 2, 0) = Inr (fresh h + 2, 2)"
    using rot2_live(2) [OF l lv(3) [OF i0]] by (simp add: q_def)
  show "dest h9 (fresh h, 0) = Inr (Some (Pt s2))"
    using dest_live [OF l lv(1) [OF i0]] o by (simp add: q_def)
  show "dest h9 (Suc (fresh h), 0) = Inr (Some (Pt s3))"
    using dest_live [OF l lv(2) [OF i0]] o by (simp add: q_def)
  show "dest h9 (fresh h + 2, 0) = Inr (Some (Pt s1))"
    using dest_live [OF l lv(3) [OF i0]] o by (simp add: q_def)
qed

section \<open>\<open>splice\<close> on well-formed stores\<close>

lemma splice_next_twice:
  assumes "N a = Some an" "N b = Some bn"
    and "N (rot1 an) = Some am" "rot1 am = a"
    and "N (rot1 bn) = Some bm" "rot1 bm = b"
    and "splice_next N a b (rot1 an) (rot1 bn) a = Some an'"
    and "splice_next N a b (rot1 an) (rot1 bn) b = Some bn'"
  shows "splice_next (splice_next N a b (rot1 an) (rot1 bn)) a b (rot1 an') (rot1 bn') = N"
proof (rule ext)
  fix x
  show "splice_next (splice_next N a b (rot1 an) (rot1 bn)) a b (rot1 an') (rot1 bn') x = N x"
    using assms
    by (auto simp: splice_next_def Let_def split: if_splits)
qed

lemma well_formed_linked: "well_formed h \<Longrightarrow> linked h"
  by (simp add: well_formed_def)

lemma well_formed_involution:
  assumes "well_formed h" "e \<in> set (live_edges h)"
  shows "\<exists>n m. onext h e = Some n \<and> n \<in> set (live_edges h) \<and> even (snd n) = even (snd e)
           \<and> onext h (rot1 n) = Some m \<and> m \<in> set (live_edges h) \<and> rot1 m = e"
proof -
  note l = well_formed_linked [OF assms(1)]
  from assms have p: "\<exists>n. onext h e = Some n \<and> even (snd n) = even (snd e)"
    and i: "andthen (deref (onext h e)) (\<lambda>n. andthen (rot h n 1) (\<lambda>x.
           andthen (deref (onext h x)) (\<lambda>m. rot h m 1))) = Inr e"
    by (auto simp: well_formed_def)
  from p obtain n where n: "onext h e = Some n" "even (snd n) = even (snd e)" by blast
  note nl = onext_live_eq [OF l assms(2) n(1)]
  note r = rot1_live [OF l nl]
  from onext_live [OF l r(2)] obtain m where m: "m \<in> set (live_edges h)" "onext h (rot1 n) = Some m"
    by blast
  from i have "rot1 m = e"
    by (simp add: n(1) r(1) m(2) rot1_live(1) [OF l m(1)])
  with n nl m show ?thesis by blast
qed

lemma splice_next_disjoint:
  assumes "al \<noteq> a" "al \<noteq> b" "be \<noteq> a" "be \<noteq> b"
  shows "splice_next N a b al be a = N b" "splice_next N a b al be b = N a"
    "splice_next N a b al be be = N al"
    "al \<noteq> be \<Longrightarrow> splice_next N a b al be al = N be"
    "z \<noteq> a \<Longrightarrow> z \<noteq> b \<Longrightarrow> z \<noteq> al \<Longrightarrow> z \<noteq> be \<Longrightarrow> splice_next N a b al be z = N z"
  using assms by (auto simp: splice_next_def Let_def)


lemma splice_next_involutive:
  assumes a: "N a = Some an" "N (rot1 an) = Some am" "rot1 am = a"
    and b: "N b = Some bn" "N (rot1 bn) = Some bm" "rot1 bm = b"
    and x: "N x = Some n" "N (rot1 n) = Some m" "rot1 m = x"
    and d: "rot1 an \<noteq> a" "rot1 an \<noteq> b" "rot1 bn \<noteq> a" "rot1 bn \<noteq> b"
  shows "\<exists>n' m'. splice_next N a b (rot1 an) (rot1 bn) x = Some n'
           \<and> splice_next N a b (rot1 an) (rot1 bn) (rot1 n') = Some m' \<and> rot1 m' = x"
proof -
  note s = splice_next_disjoint [OF d, where N = N]
  have ab: "a = b" if "rot1 an = rot1 bn"
  proof -
    from a(2) b(2) have "am = bm" by (simp only: that option.inject)
    with a(3) b(3) show ?thesis by blast
  qed
  have ya: "x = rot1 an" if "rot1 n = a"
  proof -
    from x(2) a(1) have "m = an" by (simp only: that option.inject)
    with x(3) show ?thesis by blast
  qed
  have yb: "x = rot1 bn" if "rot1 n = b"
  proof -
    from x(2) b(1) have "m = bn" by (simp only: that option.inject)
    with x(3) show ?thesis by blast
  qed
  have yal: "x = a" if "rot1 n = rot1 an"
  proof -
    from x(2) a(2) have "m = am" by (simp only: that option.inject)
    with x(3) a(3) show ?thesis by blast
  qed
  have ybe: "x = b" if "rot1 n = rot1 bn"
  proof -
    from x(2) b(2) have "m = bm" by (simp only: that option.inject)
    with x(3) b(3) show ?thesis by blast
  qed
  consider (a) "x = a" | (b) "x = b" "x \<noteq> a" | (be) "x = rot1 bn" | (al) "x = rot1 an" "x \<noteq> rot1 bn"
    | (other) "x \<noteq> a" "x \<noteq> b" "x \<noteq> rot1 an" "x \<noteq> rot1 bn"
    by blast
  then show ?thesis
  proof cases
    case a
    have "splice_next N a b (rot1 an) (rot1 bn) a = Some bn" by (simp only: s(1) b(1))
    moreover have "splice_next N a b (rot1 an) (rot1 bn) (rot1 bn) = Some am"
      by (simp only: s(3) assms(2))
    ultimately show ?thesis unfolding a using assms(3) by blast
  next
    case b
    with ab have ne: "rot1 an \<noteq> rot1 bn" by blast
    have "splice_next N a b (rot1 an) (rot1 bn) b = Some an" by (simp only: s(2) assms(1))
    moreover have "splice_next N a b (rot1 an) (rot1 bn) (rot1 an) = Some bm"
      by (simp only: s(4) [OF ne] assms(5))
    ultimately show ?thesis unfolding b(1) using assms(6) by blast
  next
    case be
    have "splice_next N a b (rot1 an) (rot1 bn) (rot1 bn) = Some am"
      by (simp only: s(3) assms(2))
    moreover have "splice_next N a b (rot1 an) (rot1 bn) (rot1 am) = Some bn"
      by (simp only: assms(3) s(1) assms(4))
    ultimately show ?thesis unfolding be by blast
  next
    case al
    then have ne: "rot1 an \<noteq> rot1 bn" by simp
    have "splice_next N a b (rot1 an) (rot1 bn) (rot1 an) = Some bm"
      by (simp only: s(4) [OF ne] assms(5))
    moreover have "splice_next N a b (rot1 an) (rot1 bn) (rot1 bm) = Some an"
      by (simp only: assms(6) s(2) assms(1))
    ultimately show ?thesis unfolding al(1) by blast
  next
    case other
    with ya yb yal ybe have o2: "rot1 n \<noteq> a" "rot1 n \<noteq> b" "rot1 n \<noteq> rot1 an" "rot1 n \<noteq> rot1 bn"
      by blast+
    have "splice_next N a b (rot1 an) (rot1 bn) x = Some n"
      by (simp only: s(5) [OF other] x(1))
    moreover have "splice_next N a b (rot1 an) (rot1 bn) (rot1 n) = Some m"
      by (simp only: s(5) [OF o2] x(2))
    ultimately show ?thesis using x(3) by blast
  qed
qed

lemma well_formed_involutive: "well_formed h \<Longrightarrow> involutive h"
  by (simp add: well_formed_def involutive_def)

lemma involutive_linked: "involutive h \<Longrightarrow> linked h"
  by (simp add: involutive_def)

lemma involution_eq:
  assumes "linked h" "e \<in> set (live_edges h)"
  shows "andthen (deref (onext h e)) (\<lambda>n. andthen (rot h n 1) (\<lambda>x.
          andthen (deref (onext h x)) (\<lambda>m. rot h m 1))) = Inr e
     \<longleftrightarrow> (\<exists>n m. onext h e = Some n \<and> onext h (rot1 n) = Some m \<and> rot1 m = e)"
proof -
  from onext_live [OF assms] obtain n where n: "n \<in> set (live_edges h)" "onext h e = Some n"
    by blast
  note r = rot1_live [OF assms(1) n(1)]
  from onext_live [OF assms(1) r(2)] obtain m where
    m: "m \<in> set (live_edges h)" "onext h (rot1 n) = Some m" by blast
  have "andthen (deref (onext h e)) (\<lambda>n. andthen (rot h n 1) (\<lambda>x.
          andthen (deref (onext h x)) (\<lambda>m. rot h m 1))) = Inr (rot1 m)"
    by (simp add: n(2) r(1) m(2) rot1_live(1) [OF assms(1) m(1)])
  moreover have "(\<exists>n m. onext h e = Some n \<and> onext h (rot1 n) = Some m \<and> rot1 m = e)
      \<longleftrightarrow> rot1 m = e"
    by (metis n(2) m(2) option.inject)
  ultimately show ?thesis by simp
qed

lemma involutive_next:
  assumes "involutive h" "e \<in> set (live_edges h)"
  shows "\<exists>n m. onext h e = Some n \<and> n \<in> set (live_edges h)
           \<and> onext h (rot1 n) = Some m \<and> m \<in> set (live_edges h) \<and> rot1 m = e"
proof -
  note l = involutive_linked [OF assms(1)]
  from assms have "andthen (deref (onext h e)) (\<lambda>n. andthen (rot h n 1) (\<lambda>x.
          andthen (deref (onext h x)) (\<lambda>m. rot h m 1))) = Inr e"
    by (simp add: involutive_def)
  then obtain n m where nm: "onext h e = Some n" "onext h (rot1 n) = Some m" "rot1 m = e"
    unfolding involution_eq [OF l assms(2)] by blast
  note nl = onext_live_eq [OF l assms(2) nm(1)]
  note ml = onext_live_eq [OF l rot1_live(2) [OF l nl] nm(2)]
  from nm nl ml show ?thesis by blast
qed

lemma involutiveI:
  assumes "linked h"
    and "\<And>e. e \<in> set (live_edges h) \<Longrightarrow>
           \<exists>n m. onext h e = Some n \<and> onext h (rot1 n) = Some m \<and> rot1 m = e"
  shows "involutive h"
  unfolding involutive_def
proof (intro conjI ballI)
  show "linked h" by (rule assms(1))
  fix e assume e: "e \<in> set (live_edges h)"
  from assms(2) [OF e] show "andthen (deref (onext h e)) (\<lambda>n. andthen (rot h n 1) (\<lambda>x.
          andthen (deref (onext h x)) (\<lambda>m. rot h m 1))) = Inr e"
    unfolding involution_eq [OF assms(1) e] .
qed

lemma splice_involutive:
  assumes "involutive h" "a \<in> set (live_edges h)" "b \<in> set (live_edges h)"
    and "onext h a = Some an" "onext h b = Some bn"
    and d: "rot1 an \<noteq> a" "rot1 an \<noteq> b" "rot1 bn \<noteq> a" "rot1 bn \<noteq> b"
    and "splice_edges h a b = Inr h'"
  shows "involutive h'"
proof (rule involutiveI)
  note l = involutive_linked [OF assms(1)]
  from splice_spec [OF l assms(2,3,4,5)] assms(10) have
    l': "linked h'" and v: "live_edges h' = live_edges h"
    and n': "onext h' = splice_next (onext h) a b (rot1 an) (rot1 bn)"
    by auto
  show "linked h'" by (rule l')
  fix e assume "e \<in> set (live_edges h')"
  then have e: "e \<in> set (live_edges h)" by (simp add: v)
  from involutive_next [OF assms(1,2)] assms(4) obtain am where
    a: "onext h a = Some an" "onext h (rot1 an) = Some am" "rot1 am = a" by auto
  from involutive_next [OF assms(1,3)] assms(5) obtain bm where
    b: "onext h b = Some bn" "onext h (rot1 bn) = Some bm" "rot1 bm = b" by auto
  from involutive_next [OF assms(1) e] obtain n m where
    x: "onext h e = Some n" "onext h (rot1 n) = Some m" "rot1 m = e" by auto
  from splice_next_involutive [OF a b x d]
  show "\<exists>n m. onext h' e = Some n \<and> onext h' (rot1 n) = Some m \<and> rot1 m = e"
    unfolding n' .
qed

lemma rot1_parity: "snd e < 4 \<Longrightarrow> even (snd (rot1 e)) \<longleftrightarrow> odd (snd e)"
  using four_cases [of "snd e"] by (auto simp: rot1_def)

lemma live_snd: "e \<in> set (live_edges h) \<Longrightarrow> snd e < 4"
  by (simp add: in_live_edges)

lemma well_formed_parity:
  assumes "well_formed h" "e \<in> set (live_edges h)" "onext h e = Some n"
  shows "even (snd n) = even (snd e)"
proof -
  from assms(1,2) have "\<exists>n. onext h e = Some n \<and> even (snd n) = even (snd e)"
    unfolding well_formed_def by blast
  with assms(3) show ?thesis by (metis option.inject)
qed

lemma well_formedI:
  assumes "involutive h"
    and "\<And>e n. e \<in> set (live_edges h) \<Longrightarrow> onext h e = Some n \<Longrightarrow> even (snd n) = even (snd e)"
  shows "well_formed h"
  unfolding well_formed_def
proof (intro conjI ballI)
  note l = involutive_linked [OF assms(1)]
  show "linked h" by (rule l)
  fix e assume e: "e \<in> set (live_edges h)"
  from onext_live [OF l e] obtain n where n: "onext h e = Some n" by blast
  from assms(2) [OF e n] n show "\<exists>n. onext h e = Some n \<and> even (snd n) = even (snd e)" by blast
  from assms(1) e show "andthen (deref (onext h e)) (\<lambda>n. andthen (rot h n 1) (\<lambda>x.
          andthen (deref (onext h x)) (\<lambda>m. rot h m 1))) = Inr e"
    by (simp add: involutive_def)
qed

section \<open>Orbits of a successor function\<close>

lemma orb_self: "x \<in> orb f x"
  unfolding orb_def using funpow_0 [of f x] by (metis (mono_tags, lifting) mem_Collect_eq)

lemma orb_step: "y \<in> orb f x \<Longrightarrow> f y \<in> orb f x"
proof -
  assume "y \<in> orb f x"
  then obtain k where "y = (f ^^ k) x" unfolding orb_def by blast
  then have "f y = (f ^^ Suc k) x" by simp
  then show ?thesis unfolding orb_def by blast
qed

lemma orb_least:
  assumes "x \<in> Q" and "\<And>y. y \<in> Q \<Longrightarrow> f y \<in> Q"
  shows "orb f x \<subseteq> Q"
proof
  fix y assume "y \<in> orb f x"
  then obtain k where y: "y = (f ^^ k) x" unfolding orb_def by blast
  have "(f ^^ k) x \<in> Q" by (induction k) (simp_all add: assms)
  with y show "y \<in> Q" by simp
qed

lemma orb_closed: "y \<in> orb f x \<Longrightarrow> orb f y \<subseteq> orb f x"
  by (rule orb_least) (simp_all add: orb_step)

lemma funpow_period_mult:
  assumes "(f ^^ n) x = x"
  shows "(f ^^ (n * k)) x = x"
proof (induction k)
  case 0
  show ?case by simp
next
  case (Suc k)
  have "(f ^^ (n * Suc k)) x = (f ^^ (n * k + n)) x" by (simp add: add.commute)
  also have "\<dots> = (f ^^ (n * k)) ((f ^^ n) x)" by (simp only: funpow_add o_apply)
  also have "\<dots> = x" by (simp only: assms Suc.IH)
  finally show ?case .
qed

lemma periodic_back:
  assumes "(f ^^ n) x = x" "0 < n" "y \<in> orb f x"
  shows "x \<in> orb f y"
proof -
  from assms(3) obtain k where y: "y = (f ^^ k) x" unfolding orb_def by blast
  from assms(2) have "k \<le> n * k" by simp
  then have "n * k = (n * k - k) + k" by simp
  then have "(f ^^ (n * k)) x = (f ^^ (n * k - k)) ((f ^^ k) x)"
    by (metis funpow_add o_apply)
  with funpow_period_mult [OF assms(1), of k] y have "x = (f ^^ (n * k - k)) y" by simp
  then show ?thesis unfolding orb_def by blast
qed

lemma orb_merge:
  assumes P: "\<And>x. x \<in> P \<Longrightarrow> f x \<in> P" "a \<in> P" "b \<in> P"
    and g: "\<And>x. x \<in> P \<Longrightarrow> g x = (if x = a then f b else if x = b then f a else f x)"
    and per: "(f ^^ n) b = b" "0 < n"
    and nb: "b \<notin> orb f a"
  shows "orb g a = orb f a \<union> orb f b"
proof
  have OP: "orb f a \<union> orb f b \<subseteq> P"
    using orb_least [of a P f] orb_least [of b P f] P by blast
  show sub: "orb g a \<subseteq> orb f a \<union> orb f b"
  proof (rule orb_least)
    show "a \<in> orb f a \<union> orb f b" by (simp add: orb_self)
    fix y assume y: "y \<in> orb f a \<union> orb f b"
    with OP have "y \<in> P" by blast
    from g [OF this] y show "g y \<in> orb f a \<union> orb f b"
      by (auto simp: orb_self orb_step)
  qed
  have na: "a \<notin> orb f b"
    using periodic_back [OF per] nb by blast
  define n0 where "n0 = (LEAST n. 0 < n \<and> (f ^^ n) b = b)"
  have n0: "0 < n0" "(f ^^ n0) b = b"
    using LeastI [of "\<lambda>n. 0 < n \<and> (f ^^ n) b = b" n] per unfolding n0_def by blast+
  have least: "(f ^^ j) b \<noteq> b" if "0 < j" "j < n0" for j
    using not_less_Least [of j "\<lambda>n. 0 < n \<and> (f ^^ n) b = b"] that unfolding n0_def by blast
  have it: "0 < j \<Longrightarrow> j \<le> n0 \<Longrightarrow> (f ^^ j) b \<in> orb g a" for j
  proof (induction j)
    case 0
    then show ?case by simp
  next
    case (Suc j)
    show ?case
    proof (cases "j = 0")
      case True
      from g [OF P(2)] have "g a = f b" by simp
      with orb_step [OF orb_self, of g a] True show ?thesis by simp
    next
      case False
      with Suc have j: "0 < j" "j < n0" and ih: "(f ^^ j) b \<in> orb g a" by simp_all
      have "(f ^^ j) b \<in> orb f b" unfolding orb_def by blast
      with na have "(f ^^ j) b \<noteq> a" by blast
      moreover from least [OF j] have "(f ^^ j) b \<noteq> b" .
      moreover from ih sub OP have "(f ^^ j) b \<in> P" by blast
      ultimately have "g ((f ^^ j) b) = f ((f ^^ j) b)" using g by simp
      with orb_step [OF ih] show ?thesis by simp
    qed
  qed
  from it [OF n0(1) order_refl] n0(2) have b: "b \<in> orb g a" by simp
  have cl: "f y \<in> orb g a" if y: "y \<in> orb g a" for y
  proof -
    from y sub OP have "y \<in> P" by blast
    from g [OF this] g [OF P(2)] g [OF P(3)] orb_step [OF y] orb_step [OF b]
      orb_step [OF orb_self, of g a]
    show ?thesis by (auto split: if_splits)
  qed
  show "orb f a \<union> orb f b \<subseteq> orb g a"
    using orb_least [of a "orb g a" f] orb_least [of b "orb g a" f] cl b orb_self [of a g]
    by blast
qed


lemma orb_split_notin:
  assumes P: "\<And>x. x \<in> P \<Longrightarrow> f x \<in> P" "a \<in> P" "b \<in> P"
    and g: "\<And>x. x \<in> P \<Longrightarrow> g x = (if x = a then f b else if x = b then f a else f x)"
    and ba: "b \<in> orb f a" and ne: "a \<noteq> b"
  shows "a \<notin> orb g b"
proof
  assume "a \<in> orb g b"
  then obtain j where j: "a = (g ^^ j) b" unfolding orb_def by blast
  from ba obtain k0 where k0: "(f ^^ k0) a = b" unfolding orb_def by auto
  define k where "k = (LEAST k. (f ^^ k) a = b)"
  have k: "(f ^^ k) a = b" unfolding k_def using k0 by (rule LeastI)
  have least: "(f ^^ i) a \<noteq> b" if "i < k" for i
    using not_less_Least [of i "\<lambda>k. (f ^^ k) a = b"] that unfolding k_def by blast
  have kpos: "0 < k"
  proof (rule ccontr)
    assume "\<not> 0 < k"
    then have "k = 0" by simp
    with k have "a = b" by simp
    with ne show False by blast
  qed
  have noa: "(f ^^ i) a \<noteq> a" if i: "0 < i" "i < k" for i
  proof
    assume e: "(f ^^ i) a = a"
    from i have "k = (k - i) + i" by simp
    then have "(f ^^ k) a = (f ^^ ((k - i) + i)) a" by simp
    then have "(f ^^ k) a = (f ^^ (k - i)) ((f ^^ i) a)" by (simp only: funpow_add o_apply)
    with e k have "(f ^^ (k - i)) a = b" by simp
    moreover from i have "k - i < k" by simp
    ultimately show False using least by blast
  qed
  have inP: "(f ^^ i) a \<in> P" for i
    by (induction i) (simp_all add: P)
  have it: "0 < i \<Longrightarrow> i \<le> k \<Longrightarrow> (g ^^ i) b = (f ^^ i) a" for i
  proof (induction i)
    case 0
    then show ?case by simp
  next
    case (Suc i)
    show ?case
    proof (cases "i = 0")
      case True
      from g [OF P(3)] ne have "g b = f a" by simp
      with True show ?thesis by simp
    next
      case False
      with Suc have i: "0 < i" "i < k" and ih: "(g ^^ i) b = (f ^^ i) a" by simp_all
      from g [OF inP [of i]] noa [OF i] least [OF i(2)]
      have "g ((f ^^ i) a) = f ((f ^^ i) a)" by simp
      with ih show ?thesis by simp
    qed
  qed
  from it [OF kpos order_refl] k have per: "(g ^^ k) b = b" by simp
  define r where "r = j mod k"
  have "(g ^^ (j mod k)) b = (g ^^ j) b" by (rule funpow_mod_eq [OF per])
  with j have r: "(g ^^ r) b = a" by (simp only: r_def)
  from kpos have rk: "r < k" by (simp add: r_def)
  show False
  proof (cases "r = 0")
    case True
    with r ne show False by simp
  next
    case False
    then have "0 < r" by simp
    from it [OF this] rk r have "(f ^^ r) a = a" by simp
    with noa [OF \<open>0 < r\<close> rk] show False by blast
  qed
qed

lemma orb_split:
  assumes Pf: "\<And>x. x \<in> P \<Longrightarrow> f x \<in> P" and Pg: "\<And>x. x \<in> P \<Longrightarrow> g x \<in> P"
    and ab: "a \<in> P" "b \<in> P"
    and g: "\<And>x. x \<in> P \<Longrightarrow> g x = (if x = a then f b else if x = b then f a else f x)"
    and ba: "b \<in> orb f a" and ne: "a \<noteq> b"
    and pf: "(f ^^ n) a = a" "0 < n"
    and pg: "(g ^^ m) a = a" "0 < m"
  shows "orb g a \<union> orb g b = orb f a" "orb g a \<inter> orb g b = {}"
proof -
  have na: "a \<notin> orb g b"
    by (rule orb_split_notin [OF Pf ab g ba ne])
  have f: "f x = (if x = b then g a else if x = a then g b else g x)" if "x \<in> P" for x
    using g [OF that] g [OF ab(1)] g [OF ab(2)] ne by simp
  from orb_merge [OF Pg ab(2) ab(1) f pg na] have u: "orb f b = orb g b \<union> orb g a" .
  have "orb f b \<subseteq> orb f a" by (rule orb_closed [OF ba])
  moreover have "orb f a \<subseteq> orb f b"
    by (rule orb_closed [OF periodic_back [OF pf ba]])
  ultimately have "orb f b = orb f a" by blast
  with u show "orb g a \<union> orb g b = orb f a" by blast
  show "orb g a \<inter> orb g b = {}"
  proof (rule ccontr)
    assume "orb g a \<inter> orb g b \<noteq> {}"
    then obtain x where x: "x \<in> orb g a" "x \<in> orb g b" by blast
    from periodic_back [OF pg x(1)] have "a \<in> orb g x" .
    with orb_closed [OF x(2)] na show False by blast
  qed
qed

section \<open>Properties of the predicates\<close>

lemma card_four_distinct:
  "card (set [a, b, c, d]) = 4 \<longleftrightarrow> distinct [a, b, c, d]"
proof
  assume "card (set [a, b, c, d]) = 4"
  then have "card (set [a, b, c, d]) = length [a, b, c, d]" by simp
  then show "distinct [a, b, c, d]" by (rule card_distinct)
next
  assume "distinct [a, b, c, d]"
  then have "card (set [a, b, c, d]) = length [a, b, c, d]" by (rule distinct_card)
  then show "card (set [a, b, c, d]) = 4" by simp
qed

text \<open>
  C2.  With fewer than four distinct points among \<open>a, b, c, d\<close> the predicate is false
  whatever the determinant is; with four distinct points it is true exactly when the
  determinant of the four lifted rows \<open>[x, y, x^2 + y^2, 1]\<close> is strictly positive.
  At \<open>(0,0), (1,0), (0,1)\<close> the point \<open>(0.4, 0.4)\<close> is inside and \<open>(2, 2)\<close> is not.
\<close>

theorem in_circle_spec:
  "(card {a, b, c, d} < 4 \<longrightarrow> in_circle a b c d = False)
   \<and> (distinct [a, b, c, d] \<longrightarrow>
        in_circle a b c d =
          (det4 (fst a, snd a, (fst a)\<^sup>2 + (snd a)\<^sup>2, 1) (fst b, snd b, (fst b)\<^sup>2 + (snd b)\<^sup>2, 1)
                (fst c, snd c, (fst c)\<^sup>2 + (snd c)\<^sup>2, 1) (fst d, snd d, (fst d)\<^sup>2 + (snd d)\<^sup>2, 1) > 0))
   \<and> in_circle (0, 0) (1, 0) (0, 1) (4 / 10, 4 / 10) = True
   \<and> in_circle (0, 0) (1, 0) (0, 1) (2, 2) = False"
proof (intro conjI impI)
  assume "card {a, b, c, d} < 4"
  then show "in_circle a b c d = False" by (simp add: in_circle_def)
next
  assume "distinct [a, b, c, d]"
  then have "card (set [a, b, c, d]) = 4" by (simp only: card_four_distinct)
  then show "in_circle a b c d =
          (det4 (fst a, snd a, (fst a)\<^sup>2 + (snd a)\<^sup>2, 1) (fst b, snd b, (fst b)\<^sup>2 + (snd b)\<^sup>2, 1)
                (fst c, snd c, (fst c)\<^sup>2 + (snd c)\<^sup>2, 1) (fst d, snd d, (fst d)\<^sup>2 + (snd d)\<^sup>2, 1) > 0)"
    by (simp add: in_circle_def lifted_row_def)
next
  show "in_circle (0, 0) (1, 0) (0, 1) (4 / 10, 4 / 10) = True"
    by (simp add: in_circle_def lifted_row_def det4_def det3_def det2_def power2_eq_square)
next
  show "in_circle (0, 0) (1, 0) (0, 1) (2, 2) = False"
    by (simp add: in_circle_def lifted_row_def det4_def det3_def det2_def)
qed

theorem in_circle_spec_witness:
  "card {(0, 0), (1, 0), (0, 1), (0, 0) :: point} < 4
   \<and> in_circle (0, 0) (1, 0) (0, 1) (0, 0) = False
   \<and> distinct [(0, 0), (1, 0), (0, 1), (1, 1) :: point]
   \<and> in_circle (0, 0) (1, 0) (0, 1) (1, 1) = False"
proof -
  have c: "card {(0, 0), (1, 0), (0, 1), (0, 0) :: point} < 4"
    by (simp add: card_insert_if)
  have d: "distinct [(0, 0), (1, 0), (0, 1), (1, 1) :: point]" by simp
  have "in_circle (0, 0) (1, 0) (0, 1) (0, 0) = False"
    using in_circle_spec [of "(0, 0)" "(1, 0)" "(0, 1)" "(0, 0)"] c by blast
  moreover have "in_circle (0, 0) (1, 0) (0, 1) (1, 1) = False"
    using in_circle_spec [of "(0, 0)" "(1, 0)" "(0, 1)" "(1, 1)"] d
    by (simp add: det4_def det3_def det2_def)
  ultimately show ?thesis using c d by simp
qed

section \<open>Equality and hashing of edges\<close>

text \<open>
  C9.  The claim fails on the code: two edges of two different Quads with equal payload
  pairs are equal and have different hashes.  The two edges returned by two calls of
  \<open>Quad.make\<close> are such a pair (both payloads of each are still \<open>None\<close>).
\<close>

theorem edge_eq_without_equal_hash:
  "(case make empty_heap of (h1, e1) \<Rightarrow> case make h1 of (h2, e2) \<Rightarrow>
      eq_edge h2 e1 e2 = Inr True \<and> hash_edge h2 e1 \<noteq> hash_edge h2 e2)"
  by (simp add: make_def empty_heap_def new_edge_def Let_def eq_edge_def hash_edge_def
      org_def dest_def sym_edge_def rot_def quad_getitem_def blank_edge_def)

text \<open>
  The same pair of edges arises inside \<open>delaunay\<close> for three coinciding sites: the two
  edges of the chain join the same pair of payloads.
\<close>

lemma edge_eq_without_equal_hash_delaunay:
  "\<exists>h l r. delaunay 0 [(0, 0), (0, 0), (0, 0)] empty_heap = Inr (h, l, r)
     \<and> eq_edge h (0, 0) (1, 0) = Inr True \<and> hash_edge h (0, 0) \<noteq> hash_edge h (1, 0)"
  by (simp add: delaunay3_def make_def empty_heap_def new_edge_def Let_def eq_edge_def hash_edge_def
      org_def dest_def set_dest_def sym_edge_def rot_def quad_getitem_def blank_edge_def splice_edges_def
      onext_def set_next_def set_org_def ccw_def det3_def det2_def)

section \<open>Deleting an edge\<close>

text \<open>
  C10 as the code has it.  In a linked store, \<open>delete_edge(e)\<close> on a live edge returns;
  afterwards the four edge records of the Quad of \<open>e\<close> have \<open>next\<close> and \<open>_quad\<close> equal to
  \<open>None\<close>, \<open>rot\<close> and \<open>sym\<close> through any of them raise \<open>TypeError\<close>, and \<open>onext\<close> returns
  \<open>None\<close> (it does not raise; a further step from that \<open>None\<close> raises
  \<open>AttributeError\<close>).  No edge record outside the Quad has its \<open>_quad\<close> changed, and no
  origin payload changes at all.
\<close>

theorem delete_edge_clears_quad:
  assumes "linked h" and "e \<in> set (live_edges h)"
  shows "\<exists>h'. delete_edge h e = Inr h'
     \<and> (\<forall>x \<in> set (quad_edges (fst e)).
           next_ref (store h' x) = None \<and> quad_ref (store h' x) = None
         \<and> (\<forall>n. rot h' x n = Inl TypeError) \<and> sym_edge h' x = Inl TypeError
         \<and> onext h' x = None \<and> deref (onext h' x) = Inl AttributeError)
     \<and> (\<forall>y. y \<notin> set (quad_edges (fst e)) \<longrightarrow> quad_ref (store h' y) = quad_ref (store h y))
     \<and> (\<forall>y. origin (store h' y) = origin (store h y))"
proof -
  from delete_edge_live [OF assms] obtain h' where
    d: "delete_edge h e = Inr h'"
    and n: "\<forall>x \<in> set (quad_edges (fst e)). next_ref (store h' x) = None \<and> quad_ref (store h' x) = None"
    and q: "\<forall>x. x \<notin> set (quad_edges (fst e)) \<longrightarrow> quad_ref (store h' x) = quad_ref (store h x)"
    and o: "\<forall>x. origin (store h' x) = origin (store h x)"
    by blast
  show ?thesis
    by (rule exI [of _ h']) (simp add: d n q o rot_def sym_edge_def onext_def)
qed

theorem delete_edge_clears_quad_witness:
  "linked (fst (make empty_heap)) \<and> (0, 0) \<in> set (live_edges (fst (make empty_heap)))
   \<and> (\<exists>h'. delete_edge (fst (make empty_heap)) (0, 0) = Inr h'
         \<and> quad_ref (store h' (0, 2)) = None \<and> sym_edge h' (0, 1) = Inl TypeError)"
proof -
  have l: "linked (fst (make empty_heap))" by (rule make_empty_linked)
  have e: "(0, 0) \<in> set (live_edges (fst (make empty_heap)))" by (rule make_empty_live) simp
  from delete_edge_clears_quad [OF l e] obtain h' where
    d: "delete_edge (fst (make empty_heap)) (0, 0) = Inr h'"
    and a: "\<forall>x \<in> set (quad_edges (fst (0::nat, 0::nat))).
           next_ref (store h' x) = None \<and> quad_ref (store h' x) = None
         \<and> (\<forall>n. rot h' x n = Inl TypeError) \<and> sym_edge h' x = Inl TypeError
         \<and> onext h' x = None \<and> deref (onext h' x) = Inl AttributeError"
    by blast
  from a have "quad_ref (store h' (0, 2)) = None" "sym_edge h' (0, 1) = Inl TypeError"
    by (simp_all add: quad_edges_def)
  with l e d show ?thesis by blast
qed

text \<open>
  C10 as stated fails for \<open>onext\<close>: through a deleted edge handle, \<open>onext\<close> returns the
  stored \<open>None\<close>; only \<open>rot\<close> and \<open>sym\<close> raise.
\<close>

theorem deleted_edge_onext_returns_None:
  "\<exists>h'. delete_edge (fst (make empty_heap)) (0, 0) = Inr h'
     \<and> onext h' (0, 0) = None \<and> rot h' (0, 0) 1 = Inl TypeError"
proof -
  from delete_edge_live [OF make_empty_linked make_empty_live [of 0]] obtain h' where
    d: "delete_edge (fst (make empty_heap)) (0, 0) = Inr h'"
    and n: "\<forall>x \<in> set (quad_edges (fst (0::nat, 0::nat))).
              next_ref (store h' x) = None \<and> quad_ref (store h' x) = None"
    by auto
  from n have "next_ref (store h' (0, 0)) = None" "quad_ref (store h' (0, 0)) = None"
    by (simp_all add: quad_edges_def)
  with d show ?thesis
    by (simp add: onext_def rot_def)
qed

section \<open>The three-site case of \<open>delaunay\<close>\<close>

text \<open>
  C3.  From a linked store, with \<open>a\<close>, \<open>b\<close>, \<open>c\<close> the primal edges of the first, second
  and third Quad that the call allocates: \<open>delaunay\<close> on three sites builds \<open>a\<close> from
  \<open>s1\<close> to \<open>s2\<close> and \<open>b\<close> from \<open>s2\<close> to \<open>s3\<close>, chained at \<open>s2\<close>.  If \<open>ccw(s1, s2, s3)\<close> it
  adds \<open>c\<close> from \<open>s3\<close> to \<open>s1\<close>, so that \<open>a, b, c\<close> bound one left face, and returns
  \<open>(a, b.sym)\<close>; if instead \<open>ccw(s1, s3, s2)\<close> it adds the same \<open>c\<close> and returns
  \<open>(c.sym, c)\<close>; otherwise it allocates no third Quad and returns \<open>(a, b.sym)\<close>, and the
  left face of \<open>a\<close> runs \<open>a, b, b.sym, a.sym\<close>: an open chain, no triangle.
\<close>

theorem delaunay_three_sites:
  assumes "linked h"
  shows
    "(ccw s1 s2 s3 \<longrightarrow>
       (\<exists>h'. delaunay fuel [s1, s2, s3] h = Inr (h', (fresh h, 0), (Suc (fresh h), 2))
          \<and> sym_edge h' (Suc (fresh h), 0) = Inr (Suc (fresh h), 2)
          \<and> fresh h' = fresh h + 3
          \<and> org h' (fresh h, 0) = Some (Pt s1) \<and> dest h' (fresh h, 0) = Inr (Some (Pt s2))
          \<and> org h' (Suc (fresh h), 0) = Some (Pt s2) \<and> dest h' (Suc (fresh h), 0) = Inr (Some (Pt s3))
          \<and> org h' (fresh h + 2, 0) = Some (Pt s3) \<and> dest h' (fresh h + 2, 0) = Inr (Some (Pt s1))
          \<and> lnext h' (fresh h, 0) = Inr (Suc (fresh h), 0)
          \<and> lnext h' (Suc (fresh h), 0) = Inr (fresh h + 2, 0)
          \<and> lnext h' (fresh h + 2, 0) = Inr (fresh h, 0)))
   \<and> (\<not> ccw s1 s2 s3 \<and> ccw s1 s3 s2 \<longrightarrow>
       (\<exists>h'. delaunay fuel [s1, s2, s3] h = Inr (h', (fresh h + 2, 2), (fresh h + 2, 0))
          \<and> sym_edge h' (fresh h + 2, 0) = Inr (fresh h + 2, 2)
          \<and> fresh h' = fresh h + 3
          \<and> org h' (fresh h, 0) = Some (Pt s1) \<and> dest h' (fresh h, 0) = Inr (Some (Pt s2))
          \<and> org h' (Suc (fresh h), 0) = Some (Pt s2) \<and> dest h' (Suc (fresh h), 0) = Inr (Some (Pt s3))
          \<and> org h' (fresh h + 2, 0) = Some (Pt s3) \<and> dest h' (fresh h + 2, 0) = Inr (Some (Pt s1))
          \<and> lnext h' (fresh h, 0) = Inr (Suc (fresh h), 0)
          \<and> lnext h' (Suc (fresh h), 0) = Inr (fresh h + 2, 0)
          \<and> lnext h' (fresh h + 2, 0) = Inr (fresh h, 0)))
   \<and> (\<not> ccw s1 s2 s3 \<and> \<not> ccw s1 s3 s2 \<longrightarrow>
       (\<exists>h'. delaunay fuel [s1, s2, s3] h = Inr (h', (fresh h, 0), (Suc (fresh h), 2))
          \<and> sym_edge h' (Suc (fresh h), 0) = Inr (Suc (fresh h), 2)
          \<and> fresh h' = fresh h + 2
          \<and> org h' (fresh h, 0) = Some (Pt s1) \<and> dest h' (fresh h, 0) = Inr (Some (Pt s2))
          \<and> org h' (Suc (fresh h), 0) = Some (Pt s2) \<and> dest h' (Suc (fresh h), 0) = Inr (Some (Pt s3))
          \<and> lnext h' (fresh h, 0) = Inr (Suc (fresh h), 0)
          \<and> lnext h' (Suc (fresh h), 0) = Inr (Suc (fresh h), 2)
          \<and> lnext h' (Suc (fresh h), 2) = Inr (fresh h, 2)
          \<and> lnext h' (fresh h, 2) = Inr (fresh h, 0)))"
proof -
  from delaunay3_chain [OF assms, of s1 s2 s3] obtain h5 where
    c: "chain3 h s1 s2 s3 h5"
    and d: "delaunay3 s1 s2 s3 h =
         (if ccw s1 s2 s3 then
            andthen (connect h5 (Suc (fresh h), 0) (fresh h, 0)) (\<lambda>(h6, c).
            andthen (sym_edge h6 (Suc (fresh h), 0)) (\<lambda>bs. Inr (h6, (fresh h, 0), bs)))
          else if ccw s1 s3 s2 then
            andthen (connect h5 (Suc (fresh h), 0) (fresh h, 0)) (\<lambda>(h6, c).
            andthen (sym_edge h6 c) (\<lambda>cs. Inr (h6, cs, c)))
          else
            andthen (sym_edge h5 (Suc (fresh h), 0)) (\<lambda>bs. Inr (h5, (fresh h, 0), bs)))"
    by blast
  from connect_chain3 [OF c] obtain h9 where
    k: "connect h5 (Suc (fresh h), 0) (fresh h, 0) = Inr (h9, (fresh h + 2, 0))"
    and t: "triangle3 h s1 s2 s3 h9"
    by blast
  note tl = triangle3_lnext [OF t] and cl = chain3_lnext [OF c]
  from t have tf: "fresh h9 = fresh h + 3" "org h9 (fresh h, 0) = Some (Pt s1)"
    "org h9 (Suc (fresh h), 0) = Some (Pt s2)" "org h9 (fresh h + 2, 0) = Some (Pt s3)"
    unfolding triangle3_def Let_def by blast+
  from c have cf: "fresh h5 = fresh h + 2" "org h5 (fresh h, 0) = Some (Pt s1)"
    "org h5 (Suc (fresh h), 0) = Some (Pt s2)"
    unfolding chain3_def Let_def by blast+
  show ?thesis
  proof (intro conjI impI)
    assume "ccw s1 s2 s3"
    then have "delaunay fuel [s1, s2, s3] h = Inr (h9, (fresh h, 0), (Suc (fresh h), 2))"
      by (simp add: d k tl(4))
    with tl tf show "\<exists>h'. delaunay fuel [s1, s2, s3] h = Inr (h', (fresh h, 0), (Suc (fresh h), 2))
          \<and> sym_edge h' (Suc (fresh h), 0) = Inr (Suc (fresh h), 2)
          \<and> fresh h' = fresh h + 3
          \<and> org h' (fresh h, 0) = Some (Pt s1) \<and> dest h' (fresh h, 0) = Inr (Some (Pt s2))
          \<and> org h' (Suc (fresh h), 0) = Some (Pt s2) \<and> dest h' (Suc (fresh h), 0) = Inr (Some (Pt s3))
          \<and> org h' (fresh h + 2, 0) = Some (Pt s3) \<and> dest h' (fresh h + 2, 0) = Inr (Some (Pt s1))
          \<and> lnext h' (fresh h, 0) = Inr (Suc (fresh h), 0)
          \<and> lnext h' (Suc (fresh h), 0) = Inr (fresh h + 2, 0)
          \<and> lnext h' (fresh h + 2, 0) = Inr (fresh h, 0)"
      by blast
  next
    assume "\<not> ccw s1 s2 s3 \<and> ccw s1 s3 s2"
    then have "delaunay fuel [s1, s2, s3] h = Inr (h9, (fresh h + 2, 2), (fresh h + 2, 0))"
      using tl(5) by (simp add: d k)
    with tl tf show "\<exists>h'. delaunay fuel [s1, s2, s3] h = Inr (h', (fresh h + 2, 2), (fresh h + 2, 0))
          \<and> sym_edge h' (fresh h + 2, 0) = Inr (fresh h + 2, 2)
          \<and> fresh h' = fresh h + 3
          \<and> org h' (fresh h, 0) = Some (Pt s1) \<and> dest h' (fresh h, 0) = Inr (Some (Pt s2))
          \<and> org h' (Suc (fresh h), 0) = Some (Pt s2) \<and> dest h' (Suc (fresh h), 0) = Inr (Some (Pt s3))
          \<and> org h' (fresh h + 2, 0) = Some (Pt s3) \<and> dest h' (fresh h + 2, 0) = Inr (Some (Pt s1))
          \<and> lnext h' (fresh h, 0) = Inr (Suc (fresh h), 0)
          \<and> lnext h' (Suc (fresh h), 0) = Inr (fresh h + 2, 0)
          \<and> lnext h' (fresh h + 2, 0) = Inr (fresh h, 0)"
      by blast
  next
    assume "\<not> ccw s1 s2 s3 \<and> \<not> ccw s1 s3 s2"
    then have "delaunay fuel [s1, s2, s3] h = Inr (h5, (fresh h, 0), (Suc (fresh h), 2))"
      by (simp add: d cl(5))
    with cl cf show "\<exists>h'. delaunay fuel [s1, s2, s3] h = Inr (h', (fresh h, 0), (Suc (fresh h), 2))
          \<and> sym_edge h' (Suc (fresh h), 0) = Inr (Suc (fresh h), 2)
          \<and> fresh h' = fresh h + 2
          \<and> org h' (fresh h, 0) = Some (Pt s1) \<and> dest h' (fresh h, 0) = Inr (Some (Pt s2))
          \<and> org h' (Suc (fresh h), 0) = Some (Pt s2) \<and> dest h' (Suc (fresh h), 0) = Inr (Some (Pt s3))
          \<and> lnext h' (fresh h, 0) = Inr (Suc (fresh h), 0)
          \<and> lnext h' (Suc (fresh h), 0) = Inr (Suc (fresh h), 2)
          \<and> lnext h' (Suc (fresh h), 2) = Inr (fresh h, 2)
          \<and> lnext h' (fresh h, 2) = Inr (fresh h, 0)"
      by blast
  qed
qed


theorem delaunay_three_sites_witness:
  "linked empty_heap
   \<and> ccw (0, 0) (1, 0) (2, 1)
   \<and> (\<exists>h'. delaunay 0 [(0, 0), (1, 0), (2, 1)] empty_heap = Inr (h', (0, 0), (1, 2))
          \<and> fresh h' = 3 \<and> lnext h' (2, 0) = Inr (0, 0))
   \<and> \<not> ccw (0, 0) (0, 1) (1, 0) \<and> ccw (0, 0) (1, 0) (0, 1)
   \<and> (\<exists>h'. delaunay 0 [(0, 0), (0, 1), (1, 0)] empty_heap = Inr (h', (2, 2), (2, 0))
          \<and> fresh h' = 3 \<and> lnext h' (2, 0) = Inr (0, 0))
   \<and> \<not> ccw (0, 0) (1, 0) (2, 0) \<and> \<not> ccw (0, 0) (2, 0) (1, 0)
   \<and> (\<exists>h'. delaunay 0 [(0, 0), (1, 0), (2, 0)] empty_heap = Inr (h', (0, 0), (1, 2))
          \<and> fresh h' = 2 \<and> lnext h' (0, 2) = Inr (0, 0))"
proof -
  have f: "fresh empty_heap = 0" by (simp add: empty_heap_def)
  have c1: "ccw (0, 0) (1, 0) (2, 1)" by (simp add: ccw_def det3_def det2_def)
  have c2: "\<not> ccw (0, 0) (0, 1) (1, 0)" "ccw (0, 0) (1, 0) (0, 1)"
    by (simp_all add: ccw_def det3_def det2_def)
  have c3: "\<not> ccw (0, 0) (1, 0) (2, 0)" "\<not> ccw (0, 0) (2, 0) (1, 0)"
    by (simp_all add: ccw_def det3_def det2_def)
  have "\<exists>h'. delaunay 0 [(0, 0), (1, 0), (2, 1)] empty_heap = Inr (h', (0, 0), (1, 2))
          \<and> fresh h' = 3 \<and> lnext h' (2, 0) = Inr (0, 0)"
    using delaunay_three_sites [OF linked_empty, of "(0, 0)" "(1, 0)" "(2, 1)" 0] c1
    by (auto simp: f numeral_2_eq_2)
  moreover have "\<exists>h'. delaunay 0 [(0, 0), (0, 1), (1, 0)] empty_heap = Inr (h', (2, 2), (2, 0))
          \<and> fresh h' = 3 \<and> lnext h' (2, 0) = Inr (0, 0)"
    using delaunay_three_sites [OF linked_empty, of "(0, 0)" "(0, 1)" "(1, 0)" 0] c2
    by (auto simp: f numeral_2_eq_2)
  moreover have "\<exists>h'. delaunay 0 [(0, 0), (1, 0), (2, 0)] empty_heap = Inr (h', (0, 0), (1, 2))
          \<and> fresh h' = 2 \<and> lnext h' (0, 2) = Inr (0, 0)"
    using delaunay_three_sites [OF linked_empty, of "(0, 0)" "(1, 0)" "(2, 0)" 0] c3
    by (auto simp: f numeral_2_eq_2)
  ultimately show ?thesis using linked_empty c1 c2 c3 by blast
qed

end
